theory Spec2Isabelle
  imports Complex_Main
begin


section \<open>Data model of the tech-tree renderer\<close>

text \<open>
  The embedding follows \<^verbatim>\<open>src/js/techtree-render.js\<close> (class \<^verbatim>\<open>TechtreeRenderer\<close>).
  A node object is a record.  The JavaScript fields \<^verbatim>\<open>id\<close>, \<^verbatim>\<open>type\<close>, \<^verbatim>\<open>x\<close> and \<^verbatim>\<open>y\<close>
  are written \<open>nid\<close>, \<open>ntype\<close>, \<open>nx\<close> and \<open>ny\<close>, because the short names are needed for
  variables.  A field that may be \<^verbatim>\<open>undefined\<close> is an option.  The fields \<^verbatim>\<open>label\<close> and
  \<^verbatim>\<open>desc\<close> are only drawn and are left out.

  A JavaScript number is an exact real number or \<^verbatim>\<open>NaN\<close>: the rounding of doubles, the
  signed zero and the infinities are not modelled.  The viewport and the configuration are
  finite numbers, and the only divisions whose divisor can be zero are
  \<^verbatim>\<open>completedRequired / required.length\<close> and \<^verbatim>\<open>L / maxLayer\<close>, where the dividend is a count
  that never exceeds the divisor: a zero divisor comes with a zero dividend, and
  \<^verbatim>\<open>0 / 0\<close> is \<^verbatim>\<open>NaN\<close>.
\<close>

datatype jsnum = Num real | NaN

text \<open>\<^verbatim>\<open>a / b\<close> for two counts with \<open>a \<le> b\<close>, then \<^verbatim>\<open>v * b\<close> and \<^verbatim>\<open>a + v\<close> for a finite
  number and a value that may be \<^verbatim>\<open>NaN\<close>.\<close>

definition js_div :: "nat \<Rightarrow> nat \<Rightarrow> jsnum" where
  "js_div a b = (if b = 0 then NaN else Num (real a / real b))"

fun js_times :: "jsnum \<Rightarrow> real \<Rightarrow> jsnum" where
  "js_times (Num a) b = Num (a * b)"
| "js_times NaN b = NaN"

fun js_plus :: "real \<Rightarrow> jsnum \<Rightarrow> jsnum" where
  "js_plus a (Num b) = Num (a + b)"
| "js_plus a NaN = NaN"

text \<open>
  What \<^verbatim>\<open>n.layer\<close> can hold once the layer pass has run: a number, \<^verbatim>\<open>NaN\<close>, or a value
  that is not a number at all (a function or object inherited from \<^verbatim>\<open>Object.prototype\<close>, or
  the text made by adding 1 to one).
\<close>

datatype lval = Lnum nat | Lnan | Lobj

record node =
  nid :: string
  ntype :: string
  prereqs :: "string list option"
  layer :: "lval option"
  nx :: "jsnum option"
  ny :: "jsnum option"

text \<open>\<^verbatim>\<open>n.prereqs && ...\<close>, \<^verbatim>\<open>!node.prereqs || node.prereqs.length === 0\<close>: a missing list
  behaves as the empty list wherever the source guards it.\<close>

definition prereqs_of :: "node \<Rightarrow> string list" where
  "prereqs_of n = (case prereqs n of None \<Rightarrow> [] | Some ps \<Rightarrow> ps)"

section \<open>Completion state: isUnlocked, toggle, reset\<close>

text \<open>\<^verbatim>\<open>this.completed\<close> is a JavaScript \<^verbatim>\<open>Set\<close> of ids, used through \<^verbatim>\<open>has\<close>, \<^verbatim>\<open>add\<close>,
  \<^verbatim>\<open>delete\<close> and \<^verbatim>\<open>clear\<close> only, so its insertion order is never observed.\<close>

definition isUnlocked :: "string set \<Rightarrow> node \<Rightarrow> bool" where
  "isUnlocked completed node =
     (case prereqs node of
        None \<Rightarrow> True
      | Some ps \<Rightarrow> if length ps = 0 then True else list_all (\<lambda>p. p \<in> completed) ps)"

text \<open>
  \<^verbatim>\<open>cascadeRemove(id)\<close> walks \<^verbatim>\<open>this.nodes\<close> with \<^verbatim>\<open>forEach\<close>; the third argument is the part
  of the node list the walk has still to visit.  The set is mutated while the walk runs, so
  the test \<^verbatim>\<open>this.completed.has(n.id)\<close> sees every deletion made so far: the set is threaded
  through the nested call.
\<close>

function cascadeRemove :: "node list \<Rightarrow> string \<Rightarrow> node list \<Rightarrow> string set \<Rightarrow> string set" where
  "cascadeRemove nodes i [] completed = completed"
| "cascadeRemove nodes i (n # ns) completed =
     (if i \<in> set (prereqs_of n) \<and> nid n \<in> completed
      then cascadeRemove nodes i ns (cascadeRemove nodes (nid n) nodes (completed - {nid n}))
      else cascadeRemove nodes i ns completed)"
  by pat_completeness auto

lemma cascadeRemove_dom_subset:
  "cascadeRemove_dom (nodes, i, ns, completed) \<Longrightarrow> cascadeRemove nodes i ns completed \<subseteq> completed"
  by (induction nodes i ns completed rule: cascadeRemove.pinduct)
     (auto simp: cascadeRemove.psimps split: if_splits)

definition pending :: "node list \<times> string \<times> node list \<times> string set \<Rightarrow> nat" where
  "pending = (\<lambda>(nodes, i, ns, completed). card (nid ` (set nodes \<union> set ns) \<inter> completed))"

termination cascadeRemove
proof (relation "pending <*mlex*> measure (\<lambda>(nodes, i, ns, completed). length ns)")
  show "wf (pending <*mlex*> measure (\<lambda>(nodes, i, ns, completed). length ns))"
    by (simp add: wf_mlex)
next
  fix nodes :: "node list" and i :: string and n :: node and ns :: "node list"
    and completed :: "string set"
  assume c: "i \<in> set (prereqs_of n) \<and> nid n \<in> completed"
  let ?A = "nid ` (set nodes \<union> set (n # ns)) \<inter> completed"
  have fin: "finite ?A" by simp
  have "nid ` (set nodes \<union> set nodes) \<inter> (completed - {nid n}) \<subset> ?A"
    using c by auto
  then have "card (nid ` (set nodes \<union> set nodes) \<inter> (completed - {nid n})) < card ?A"
    using fin by (rule psubset_card_mono[rotated])
  then show "((nodes, nid n, nodes, completed - {nid n}), (nodes, i, n # ns, completed))
      \<in> pending <*mlex*> measure (\<lambda>(nodes, i, ns, completed). length ns)"
    by (simp add: mlex_less pending_def)
next
  fix nodes :: "node list" and i :: string and n :: node and ns :: "node list"
    and completed :: "string set"
  assume c: "i \<in> set (prereqs_of n) \<and> nid n \<in> completed"
    and d: "cascadeRemove_dom (nodes, nid n, nodes, completed - {nid n})"
  let ?A = "nid ` (set nodes \<union> set (n # ns)) \<inter> completed"
  let ?C = "cascadeRemove nodes (nid n) nodes (completed - {nid n})"
  have "?C \<subseteq> completed"
    using cascadeRemove_dom_subset[OF d] by auto
  then have "nid ` (set nodes \<union> set ns) \<inter> ?C \<subseteq> ?A" by auto
  then have "card (nid ` (set nodes \<union> set ns) \<inter> ?C) \<le> card ?A"
    by (intro card_mono) simp_all
  then show "((nodes, i, ns, ?C), (nodes, i, n # ns, completed))
      \<in> pending <*mlex*> measure (\<lambda>(nodes, i, ns, completed). length ns)"
    by (intro mlex_leq) (simp_all add: pending_def)
next
  fix nodes :: "node list" and i :: string and n :: node and ns :: "node list"
    and completed :: "string set"
  show "((nodes, i, ns, completed), (nodes, i, n # ns, completed))
      \<in> pending <*mlex*> measure (\<lambda>(nodes, i, ns, completed). length ns)"
    by (intro mlex_leq) (auto simp: pending_def intro!: card_mono)
qed

text \<open>
  \<^verbatim>\<open>toggle(node)\<close>, lines 60 to 80: the effect on \<^verbatim>\<open>this.completed\<close>.  The two calls that
  follow, \<^verbatim>\<open>updateProgress()\<close> and \<^verbatim>\<open>render()\<close>, do not touch the set; they are modelled
  below on their own.
\<close>

definition toggle :: "node list \<Rightarrow> node \<Rightarrow> string set \<Rightarrow> string set" where
  "toggle nodes node completed =
     (let isDone = nid node \<in> completed;
          unlocked = isUnlocked completed node
      in if \<not> unlocked \<and> \<not> isDone then completed
         else if isDone then cascadeRemove nodes (nid node) nodes completed - {nid node}
         else insert (nid node) completed)"

text \<open>\<^verbatim>\<open>reset()\<close>: \<^verbatim>\<open>this.completed.clear()\<close>.\<close>

definition reset :: "string set \<Rightarrow> string set" where
  "reset completed = {}"

section \<open>The id index and layer assignment\<close>

text \<open>
  The source has no \<^verbatim>\<open>throw\<close> statement.  What it can raise is the runtime's
  \<^verbatim>\<open>TypeError\<close> (a property read on \<^verbatim>\<open>undefined\<close>) and \<^verbatim>\<open>RangeError\<close> (the call stack is
  exhausted).  \<open>MalformedGraphError\<close> and \<open>CycleDetectedError\<close> are the error names of the
  specification; no function below returns them.
\<close>

datatype error = TypeError | RangeError | MalformedGraphError | CycleDetectedError

text \<open>
  The index, the cache and the layer table are plain objects (\<^verbatim>\<open>{}\<close>) used as dictionaries.
  A key that was never stored is still found when it names a member that every object
  inherits from \<^verbatim>\<open>Object.prototype\<close>: the read gives a function (for \<^verbatim>\<open>__proto__\<close> the
  prototype object), not \<^verbatim>\<open>undefined\<close>.  \<open>inherited\<close> lists those names.
\<close>

definition inherited :: "string list" where
  "inherited =
     [''constructor'', ''__defineGetter__'', ''__defineSetter__'', ''hasOwnProperty'',
      ''__lookupGetter__'', ''__lookupSetter__'', ''isPrototypeOf'', ''propertyIsEnumerable'',
      ''toString'', ''valueOf'', ''__proto__'', ''toLocaleString'']"

datatype 'a slot = Undefined | Own 'a | Inherited

text \<open>\<^verbatim>\<open>obj[k]\<close> on such an object: the stored value, else the inherited member, else
  \<^verbatim>\<open>undefined\<close>.\<close>

definition getProp :: "(string \<rightharpoonup> 'a) \<Rightarrow> string \<Rightarrow> 'a slot" where
  "getProp m k =
     (case m k of
        Some v \<Rightarrow> Own v
      | None \<Rightarrow> if k \<in> set inherited then Inherited else Undefined)"

text \<open>
  \<^verbatim>\<open>this.nodeMap = {}; this.nodes.forEach(n => this.nodeMap[n.id] = n)\<close>: a later node
  with the same id replaces the earlier one.  An assignment to an inherited name other than
  \<^verbatim>\<open>__proto__\<close> stores an entry like any other.  The assignment \<^verbatim>\<open>nodeMap['__proto__'] = n\<close>
  stores nothing and makes \<open>n\<close> the prototype of the index; the read of \<^verbatim>\<open>__proto__\<close> then
  gives \<open>n\<close>, as the map does, but other keys that were never stored would see the properties
  of \<open>n\<close>.  So the map is exact for every key that is an id of the sequence, and for every key
  when no id is \<^verbatim>\<open>__proto__\<close>.  A theorem below that holds of all graphs assumes that
  every prereqs entry is an id (\<open>well_formed\<close>) or that no id is an inherited name (\<open>plain\<close>),
  unless it is about the errors \<^verbatim>\<open>MalformedGraphError\<close> and \<^verbatim>\<open>CycleDetectedError\<close>, which
  nothing in the source raises.
\<close>

definition nodeMap :: "node list \<Rightarrow> (string \<rightharpoonup> node)" where
  "nodeMap nodes = foldl (\<lambda>m n. m(nid n \<mapsto> n)) Map.empty nodes"

type_synonym cache = "string \<rightharpoonup> lval"

text \<open>\<^verbatim>\<open>cache[id]\<close> when it is not \<^verbatim>\<open>undefined\<close>.  The cache is only written at keys for
  which this read gave \<^verbatim>\<open>undefined\<close>, so never at an inherited name.\<close>

definition cacheRead :: "cache \<Rightarrow> string \<Rightarrow> lval option" where
  "cacheRead c i =
     (case getProp c i of Own v \<Rightarrow> Some v | Inherited \<Rightarrow> Some Lobj | Undefined \<Rightarrow> None)"

text \<open>\<^verbatim>\<open>v + 1\<close>: a number more, \<^verbatim>\<open>NaN\<close> for \<^verbatim>\<open>NaN\<close>, and a text for a function or object.
  \<^verbatim>\<open>Math.max\<close> of a non-empty list is the greatest number, or \<^verbatim>\<open>NaN\<close> when some argument
  is \<^verbatim>\<open>NaN\<close> or a text that is not a numeral.\<close>

fun plus1 :: "lval \<Rightarrow> lval" where
  "plus1 (Lnum k) = Lnum (k + 1)"
| "plus1 Lnan = Lnan"
| "plus1 Lobj = Lobj"

fun numOf :: "lval \<Rightarrow> nat option" where
  "numOf (Lnum k) = Some k"
| "numOf Lnan = None"
| "numOf Lobj = None"

definition mathMax :: "lval list \<Rightarrow> lval" where
  "mathMax vs =
     (if list_all (\<lambda>v. numOf v \<noteq> None) vs then Lnum (Max (set (map (\<lambda>v. the (numOf v)) vs)))
      else Lnan)"

text \<open>\<^verbatim>\<open>node.prereqs.map(p => computeLayer(p) + 1)\<close>, from left to right; the cache written
  by one call is seen by the next, and the first exception ends the walk.\<close>

fun mapLayers :: "(cache \<Rightarrow> string \<Rightarrow> error + (cache \<times> lval)) \<Rightarrow> cache \<Rightarrow> string list
    \<Rightarrow> error + (cache \<times> lval list)" where
  "mapLayers f c [] = Inr (c, [])"
| "mapLayers f c (p # ps) =
     (case f c p of
        Inl e \<Rightarrow> Inl e
      | Inr (c', l) \<Rightarrow>
          (case mapLayers f c' ps of
             Inl e \<Rightarrow> Inl e
           | Inr (c'', ls) \<Rightarrow> Inr (c'', plus1 l # ls)))"

text \<open>
  The inner function \<^verbatim>\<open>computeLayer(id)\<close>.  The recursion has no cycle check, so it need not
  end; the first argument is the number of stack frames still free, and a call made with
  none left is the runtime's stack overflow.  The cache is returned with the layer.  When the
  index gives an inherited function for the id, \<^verbatim>\<open>!node.prereqs\<close> holds of it.
\<close>

fun computeLayer :: "nat \<Rightarrow> (string \<rightharpoonup> node) \<Rightarrow> cache \<Rightarrow> string \<Rightarrow> error + (cache \<times> lval)" where
  "computeLayer 0 nm c i = Inl RangeError"
| "computeLayer (Suc stack) nm c i =
     (case cacheRead c i of
        Some l \<Rightarrow> Inr (c, l)
      | None \<Rightarrow>
          (case getProp nm i of
             Undefined \<Rightarrow> Inl TypeError
           | Inherited \<Rightarrow> Inr (c(i \<mapsto> Lnum 0), Lnum 0)
           | Own node \<Rightarrow>
               (case prereqs node of
                  None \<Rightarrow> Inr (c(i \<mapsto> Lnum 0), Lnum 0)
                | Some ps \<Rightarrow>
                    if length ps = 0 then Inr (c(i \<mapsto> Lnum 0), Lnum 0)
                    else (case mapLayers (computeLayer stack nm) c ps of
                            Inl e \<Rightarrow> Inl e
                          | Inr (c', ls) \<Rightarrow> Inr (c'(i \<mapsto> mathMax ls), mathMax ls)))))"

text \<open>\<^verbatim>\<open>this.nodes.forEach(n => n.layer = computeLayer(n.id))\<close>.\<close>

fun assignLayers :: "nat \<Rightarrow> (string \<rightharpoonup> node) \<Rightarrow> cache \<Rightarrow> node list \<Rightarrow> error + node list" where
  "assignLayers stack nm c [] = Inr []"
| "assignLayers stack nm c (n # ns) =
     (case computeLayer stack nm c (nid n) of
        Inl e \<Rightarrow> Inl e
      | Inr (c', l) \<Rightarrow>
          (case assignLayers stack nm c' ns of
             Inl e \<Rightarrow> Inl e
           | Inr ns' \<Rightarrow> Inr (n\<lparr>layer := Some l\<rparr> # ns')))"

definition computeLayers :: "nat \<Rightarrow> node list \<Rightarrow> error + node list" where
  "computeLayers stack nodes = assignLayers stack (nodeMap nodes) Map.empty nodes"

section \<open>The progress bar\<close>

text \<open>
  \<^verbatim>\<open>updateProgress()\<close> writes a text and a width into two page elements.  The result is
  what it writes: the two counts of the text and the number in front of the \<^verbatim>\<open>%\<close> of the
  width.  The first argument tells whether both elements exist; without them the function
  returns at once.
\<close>

record progress =
  completedRequired :: nat
  requiredLength :: nat
  fillWidth :: jsnum

definition updateProgress :: "bool \<Rightarrow> node list \<Rightarrow> string set \<Rightarrow> progress option" where
  "updateProgress elements nodes completed =
     (if \<not> elements then None
      else let required = filter (\<lambda>n. ntype n = ''required'') nodes;
               k = length (filter (\<lambda>n. nid n \<in> completed) required)
           in Some \<lparr>completedRequired = k, requiredLength = length required,
                    fillWidth = js_times (js_div k (length required)) 100\<rparr>)"

section \<open>The layout pass and construction\<close>

text \<open>The sizes kept in \<^verbatim>\<open>this.nodeWidth\<close>, \<^verbatim>\<open>this.nodeHeight\<close>, \<^verbatim>\<open>this.nodeGap\<close> and
  \<^verbatim>\<open>this.layerPadding\<close>.\<close>

record sizes =
  nodeWidth :: real
  nodeHeight :: real
  nodeGap :: real
  layerPadding :: real

text \<open>The layer of a node when it is a number.\<close>

definition layerNum :: "node \<Rightarrow> nat option" where
  "layerNum n = (case layer n of None \<Rightarrow> None | Some v \<Rightarrow> numOf v)"

text \<open>
  \<^verbatim>\<open>layers[n.layer]\<close> files a node under its layer written as text, and
  \<^verbatim>\<open>Math.max(...Object.keys(layers).map(Number))\<close> reads the keys back.  With no node the
  maximum is \<^verbatim>\<open>-Infinity\<close>.  With a node whose layer is \<^verbatim>\<open>undefined\<close>, \<^verbatim>\<open>NaN\<close>, a function or
  an object, a key is not a numeral and the maximum is \<^verbatim>\<open>NaN\<close>.  In both cases the test
  \<^verbatim>\<open>L <= maxLayer\<close> fails at once and the loop body never runs.
\<close>

definition maxLayer :: "node list \<Rightarrow> nat option" where
  "maxLayer ns =
     (if ns = [] \<or> list_ex (\<lambda>n. layerNum n = None) ns then None
      else Some (Max (set (map (\<lambda>n. the (layerNum n)) ns))))"

text \<open>\<^verbatim>\<open>layers[L] || []\<close>: the nodes of layer \<open>L\<close> in input order.  A node object is named
  by its position in \<^verbatim>\<open>this.nodes\<close>, since two objects may carry the same id.\<close>

definition layerGroup :: "node list \<Rightarrow> nat \<Rightarrow> nat list" where
  "layerGroup ns L = filter (\<lambda>k. layerNum (ns ! k) = Some L) [0..<length ns]"

text \<open>\<^verbatim>\<open>this.nodeMap[p].x || 0\<close>: \<^verbatim>\<open>undefined\<close>, \<^verbatim>\<open>NaN\<close> and \<^verbatim>\<open>0\<close> all give \<^verbatim>\<open>0\<close>.\<close>

definition x_or_0 :: "jsnum option \<Rightarrow> real" where
  "x_or_0 v = (case v of Some (Num r) \<Rightarrow> r | _ \<Rightarrow> 0)"

text \<open>\<^verbatim>\<open>a.prereqs.reduce((s, p) => s + (this.nodeMap[p].x || 0), 0)\<close>; reading \<^verbatim>\<open>x\<close> of
  \<^verbatim>\<open>undefined\<close> raises, and an inherited function has no \<^verbatim>\<open>x\<close>.\<close>

fun sumX :: "(string \<rightharpoonup> node) \<Rightarrow> string list \<Rightarrow> error + real" where
  "sumX nm [] = Inr 0"
| "sumX nm (p # ps) =
     (case getProp nm p of
        Undefined \<Rightarrow> Inl TypeError
      | Inherited \<Rightarrow> (case sumX nm ps of Inl e \<Rightarrow> Inl e | Inr s \<Rightarrow> Inr (0 + s))
      | Own m \<Rightarrow> (case sumX nm ps of Inl e \<Rightarrow> Inl e | Inr s \<Rightarrow> Inr (x_or_0 (nx m) + s)))"

text \<open>The sort key of the comparator: the sum divided by \<^verbatim>\<open>a.prereqs.length || 1\<close>.  A node
  without a prereqs list raises.  Sum and quotient are exact.  The theorems on all graphs use
  the key only as a function of the positions read, and the evaluations are at inputs where
  every intermediate result is a number that doubles hold exactly.\<close>

definition barycenter :: "(string \<rightharpoonup> node) \<Rightarrow> node \<Rightarrow> error + real" where
  "barycenter nm a =
     (case prereqs a of
        None \<Rightarrow> Inl TypeError
      | Some ps \<Rightarrow>
          (case sumX nm ps of
             Inl e \<Rightarrow> Inl e
           | Inr s \<Rightarrow> Inr (s / (if length ps = 0 then 1 else real (length ps)))))"

fun keyed :: "(string \<rightharpoonup> node) \<Rightarrow> node list \<Rightarrow> nat list \<Rightarrow> error + (real \<times> nat) list" where
  "keyed nm ns [] = Inr []"
| "keyed nm ns (k # ks) =
     (case barycenter nm (ns ! k) of
        Inl e \<Rightarrow> Inl e
      | Inr b \<Rightarrow> (case keyed nm ns ks of Inl e \<Rightarrow> Inl e | Inr bs \<Rightarrow> Inr ((b, k) # bs)))"

text \<open>
  \<^verbatim>\<open>group.sort((a, b) => ax - bx)\<close>.  The comparator orders by the key, and
  \<^verbatim>\<open>Array.prototype.sort\<close> is stable.  It never calls the comparator on fewer than two
  elements; on two or more every element is compared, so a key that raises is met.  No
  position changes while the sort runs, so the keys are those of the state before it.
\<close>

definition sortGroup :: "node list \<Rightarrow> nat list \<Rightarrow> error + nat list" where
  "sortGroup ns g =
     (if length g < 2 then Inr g
      else (case keyed (nodeMap ns) ns g of
              Inl e \<Rightarrow> Inl e
            | Inr bs \<Rightarrow> Inr (map snd (sort_key fst bs))))"

text \<open>\<^verbatim>\<open>group.forEach((n, i) => { n.x = ...; n.y = ... })\<close>, from index \<open>i\<close> on.\<close>

fun place :: "sizes \<Rightarrow> real \<Rightarrow> jsnum \<Rightarrow> nat \<Rightarrow> nat list \<Rightarrow> node list \<Rightarrow> node list" where
  "place d startX yv i [] ns = ns"
| "place d startX yv i (k # ks) ns =
     place d startX yv (i + 1) ks
       (ns[k := (ns ! k)\<lparr>nx := Some (Num (startX + real i * (nodeWidth d + nodeGap d))),
                         ny := Some yv\<rparr>])"

text \<open>The body of the loop over \<open>L\<close>, lines 128 to 146.\<close>

definition layoutLayer :: "sizes \<Rightarrow> real \<Rightarrow> real \<Rightarrow> nat \<Rightarrow> nat \<Rightarrow> node list \<Rightarrow> error + node list" where
  "layoutLayer d W H maxL L ns =
     (case (if L > 0 then sortGroup ns (layerGroup ns L) else Inr (layerGroup ns L)) of
        Inl e \<Rightarrow> Inl e
      | Inr g \<Rightarrow>
          let count = length g;
              totalWidth = real count * nodeWidth d + (real count - 1) * nodeGap d;
              startX = (W - totalWidth) / 2 + nodeWidth d / 2;
              yv = js_plus (layerPadding d) (js_times (js_div L maxL) (H - layerPadding d * 2))
          in Inr (place d startX yv 0 g ns))"

fun layoutLoop :: "sizes \<Rightarrow> real \<Rightarrow> real \<Rightarrow> nat \<Rightarrow> nat list \<Rightarrow> node list \<Rightarrow> error + node list" where
  "layoutLoop d W H maxL [] ns = Inr ns"
| "layoutLoop d W H maxL (L # Ls) ns =
     (case layoutLayer d W H maxL L ns of
        Inl e \<Rightarrow> Inl e
      | Inr ns' \<Rightarrow> layoutLoop d W H maxL Ls ns')"

text \<open>The layout part of \<^verbatim>\<open>render()\<close>, lines 121 to 147, for a container of width \<open>W\<close> and
  height \<open>H\<close>.\<close>

definition layout :: "sizes \<Rightarrow> real \<Rightarrow> real \<Rightarrow> node list \<Rightarrow> error + node list" where
  "layout d W H ns =
     (case maxLayer ns of
        None \<Rightarrow> Inr ns
      | Some maxL \<Rightarrow> layoutLoop d W H maxL [0..<maxL + 1] ns)"

text \<open>\<^verbatim>\<open>renderEdges\<close> reads \<^verbatim>\<open>from.id\<close> for every prereq of every node that has a prereqs
  list, and raises when the index gives \<^verbatim>\<open>undefined\<close> for it; of an inherited function it
  reads \<^verbatim>\<open>undefined\<close> fields and raises nothing.  Nothing else is kept of the drawing.\<close>

definition renderEdges :: "node list \<Rightarrow> error + unit" where
  "renderEdges ns =
     (if list_all (\<lambda>n. list_all (\<lambda>p. getProp (nodeMap ns) p \<noteq> Undefined) (prereqs_of n)) ns
      then Inr () else Inl TypeError)"

text \<open>\<^verbatim>\<open>render()\<close>: the layout, then the drawing.  The container and the drawing library are
  taken to be present.\<close>

definition render :: "sizes \<Rightarrow> real \<Rightarrow> real \<Rightarrow> node list \<Rightarrow> error + node list" where
  "render d W H ns =
     (case layout d W H ns of
        Inl e \<Rightarrow> Inl e
      | Inr ns' \<Rightarrow> (case renderEdges ns' of Inl e \<Rightarrow> Inl e | Inr u \<Rightarrow> Inr ns'))"

text \<open>
  The constructor: the index, the layers, an empty completion set, the first rendering.  The
  node sequence is \<^verbatim>\<open>config.data.nodes || []\<close>, so a missing sequence is the empty one.  The
  options of \<^verbatim>\<open>config.data.config\<close> may be missing; \<^verbatim>\<open>this.config.nodeWidth || 136\<close>
  takes the default for a missing or zero option.  An exception leaves the caller without an
  engine.  The first argument is the depth of stack the layer pass may use.
\<close>

record config =
  cfg_nodeWidth :: "real option"
  cfg_nodeHeight :: "real option"
  cfg_nodeGap :: "real option"
  cfg_layerPadding :: "real option"

definition or_default :: "real option \<Rightarrow> real \<Rightarrow> real" where
  "or_default v dflt = (case v of None \<Rightarrow> dflt | Some r \<Rightarrow> if r = 0 then dflt else r)"

record renderer =
  this_nodes :: "node list"
  this_completed :: "string set"
  this_sizes :: sizes

definition construct :: "nat \<Rightarrow> config \<Rightarrow> node list \<Rightarrow> real \<Rightarrow> real \<Rightarrow> error + renderer" where
  "construct stack cfg data_nodes W H =
     (let d = \<lparr>nodeWidth = or_default (cfg_nodeWidth cfg) 136,
               nodeHeight = or_default (cfg_nodeHeight cfg) 44,
               nodeGap = or_default (cfg_nodeGap cfg) 30,
               layerPadding = or_default (cfg_layerPadding cfg) 34\<rparr>
      in case computeLayers stack data_nodes of
           Inl e \<Rightarrow> Inl e
         | Inr ns \<Rightarrow>
             (case render d W H ns of
                Inl e \<Rightarrow> Inl e
              | Inr ns' \<Rightarrow> Inr \<lparr>this_nodes = ns', this_completed = {}, this_sizes = d\<rparr>))"

section \<open>Properties of graphs and of the completion set\<close>

text \<open>The completion invariant: every completed node of the graph has all its prereqs
  completed.\<close>

definition completion_inv :: "node list \<Rightarrow> string set \<Rightarrow> bool" where
  "completion_inv nodes completed =
     list_all (\<lambda>n. nid n \<in> completed \<longrightarrow> list_all (\<lambda>p. p \<in> completed) (prereqs_of n)) nodes"

text \<open>The edges from a prereq to the node that requires it, and the ids reachable along
  them from an id (its downstream closure).\<close>

definition dependents :: "node list \<Rightarrow> (string \<times> string) set" where
  "dependents nodes = {(p, nid n) | p n. n \<in> set nodes \<and> p \<in> set (prereqs_of n)}"

definition downstream :: "node list \<Rightarrow> string \<Rightarrow> string set" where
  "downstream nodes i = {m. (i, m) \<in> (dependents nodes)\<^sup>+}"

text \<open>A well-formed node sequence: ids are unique and every prereq names a node of the
  sequence.  It is acyclic when the prereqs relation has no cycle.\<close>

definition well_formed :: "node list \<Rightarrow> bool" where
  "well_formed nodes =
     (distinct (map nid nodes) \<and>
      list_all (\<lambda>n. list_all (\<lambda>p. p \<in> set (map nid nodes)) (prereqs_of n)) nodes)"

definition acyclic_graph :: "node list \<Rightarrow> bool" where
  "acyclic_graph nodes = acyclic (dependents nodes)"

text \<open>No id and no prereqs entry is the name of an inherited member.\<close>

definition plain :: "node list \<Rightarrow> bool" where
  "plain nodes =
     list_all (\<lambda>n. nid n \<notin> set inherited \<and> list_all (\<lambda>p. p \<notin> set inherited) (prereqs_of n)) nodes"

text \<open>The layer recorded for an id: the \<open>layer\<close> field of the node the index gives for it.\<close>

definition layer_of :: "node list \<Rightarrow> string \<Rightarrow> nat" where
  "layer_of nodes p =
     (case nodeMap nodes p of
        None \<Rightarrow> 0
      | Some m \<Rightarrow> (case layerNum m of None \<Rightarrow> 0 | Some l \<Rightarrow> l))"

text \<open>A cache is consistent when it has no entry at an inherited name, and each entry belongs
  to an indexed node whose prereqs can all be read from the cache and obeys the equation of
  the source on the values read.\<close>

definition cache_ok :: "(string \<rightharpoonup> node) \<Rightarrow> cache \<Rightarrow> bool" where
  "cache_ok nm c \<longleftrightarrow>
     (\<forall>i \<in> dom c. i \<notin> set inherited) \<and>
     (\<forall>i l. c i = Some l \<longrightarrow>
        (\<exists>node. nm i = Some node \<and> (\<forall>p \<in> set (prereqs_of node). cacheRead c p \<noteq> None) \<and>
           l = (if prereqs_of node = [] then Lnum 0
                else mathMax (map (\<lambda>p. plus1 (the (cacheRead c p))) (prereqs_of node)))))"

text \<open>Every cached layer is a number.\<close>

definition nums :: "cache \<Rightarrow> bool" where
  "nums c \<longleftrightarrow> (\<forall>i v. c i = Some v \<longrightarrow> numOf v \<noteq> None)"

text \<open>The ids an id depends on, itself included.\<close>

definition upstream :: "node list \<Rightarrow> string \<Rightarrow> string set" where
  "upstream nodes i = {j. (j, i) \<in> (dependents nodes)\<^sup>*}"

text \<open>A node with its position forgotten.  Two node lists describe the same graph when they
  differ in positions only.\<close>

definition unplaced :: "node \<Rightarrow> node" where
  "unplaced n = n\<lparr>nx := None, ny := None\<rparr>"

text \<open>What the layout pass relies on when it places nodes: ids are unique, every layer is a
  number, a node above layer 0 has a prereqs list, and every prereq names a node of a lower
  layer.\<close>

definition layered :: "node list \<Rightarrow> bool" where
  "layered ns \<longleftrightarrow>
     distinct (map nid ns) \<and>
     (\<forall>n \<in> set ns. \<exists>l. layerNum n = Some l \<and> (0 < l \<longrightarrow> prereqs n \<noteq> None) \<and>
        (\<forall>p \<in> set (prereqs_of n). \<exists>m \<in> set ns. nid m = p \<and> (\<exists>k < l. layerNum m = Some k)))"

text \<open>The mean \<^verbatim>\<open>x\<close> of the prereqs of the node at position \<open>k\<close> (0 for a node without
  prereqs, and an \<^verbatim>\<open>x\<close> that is missing, zero or \<^verbatim>\<open>NaN\<close> counting as 0), the order of a
  layer by that mean (input order in layer 0), and the coordinates a row is given.\<close>

definition xOf :: "node list \<Rightarrow> string \<Rightarrow> real" where
  "xOf ns p = (case nodeMap ns p of None \<Rightarrow> 0 | Some m \<Rightarrow> x_or_0 (nx m))"

definition meanX :: "node list \<Rightarrow> nat \<Rightarrow> real" where
  "meanX ns k =
     sum_list (map (xOf ns) (prereqs_of (ns ! k)))
       / (if prereqs_of (ns ! k) = [] then 1 else real (length (prereqs_of (ns ! k))))"

definition rowOrder :: "node list \<Rightarrow> nat \<Rightarrow> nat list" where
  "rowOrder ns L = (if 0 < L then sort_key (meanX ns) (layerGroup ns L) else layerGroup ns L)"

definition startX :: "sizes \<Rightarrow> real \<Rightarrow> nat \<Rightarrow> real" where
  "startX d W count =
     (W - (real count * nodeWidth d + (real count - 1) * nodeGap d)) / 2 + nodeWidth d / 2"

definition rowY :: "sizes \<Rightarrow> real \<Rightarrow> nat \<Rightarrow> nat \<Rightarrow> jsnum" where
  "rowY d H maxL L = js_plus (layerPadding d) (js_times (js_div L maxL) (H - layerPadding d * 2))"

definition row :: "sizes \<Rightarrow> real \<Rightarrow> real \<Rightarrow> nat \<Rightarrow> node list \<Rightarrow> nat \<Rightarrow> bool" where
  "row d W H maxL ns L \<longleftrightarrow>
     (\<forall>j < length (rowOrder ns L).
        nx (ns ! (rowOrder ns L ! j)) =
          Some (Num (startX d W (length (rowOrder ns L)) + real j * (nodeWidth d + nodeGap d))) \<and>
        ny (ns ! (rowOrder ns L ! j)) = Some (rowY d H maxL L))"

text \<open>Two states agree below layer \<open>L\<close>.\<close>

definition agree_below :: "nat \<Rightarrow> node list \<Rightarrow> node list \<Rightarrow> bool" where
  "agree_below L s t \<longleftrightarrow> (\<forall>j < length s. \<forall>l < L. layerNum (s ! j) = Some l \<longrightarrow> s ! j = t ! j)"

text \<open>Example graphs.  \<open>chain\<close> is the chain of the specification: C requires B, B
  requires A.\<close>

definition mk_node :: "string \<Rightarrow> string list \<Rightarrow> node" where
  "mk_node i ps =
     \<lparr>nid = i, ntype = ''required'', prereqs = Some ps, layer = None, nx = None, ny = None\<rparr>"

definition chain :: "node list" where
  "chain = [mk_node ''A'' [], mk_node ''B'' [''A''], mk_node ''C'' [''B'']]"

definition scenario :: "node list" where
  "scenario = [mk_node ''a'' [], mk_node ''b'' [''a''], mk_node ''c'' [''a'', ''b'']]"

definition loop2 :: "node list" where
  "loop2 = [mk_node ''a'' [''b''], mk_node ''b'' [''a'']]"

definition diamond :: "node list" where
  "diamond = [mk_node ''r'' [], mk_node ''s'' [], mk_node ''u'' [''s''], mk_node ''v'' [''r'']]"


text \<open>A sequence in which two nodes share the id \<open>v\<close>: the index keeps the second, and the
  first requires a node of a layer above its own.\<close>

definition shadowed :: "node list" where
  "shadowed = [mk_node ''r'' [], mk_node ''v'' [''w''], mk_node ''v'' [''r''],
               mk_node ''w0'' [''v''], mk_node ''w'' [''v'']]"

definition placed :: "node \<Rightarrow> nat \<Rightarrow> real \<Rightarrow> real \<Rightarrow> node" where
  "placed n l xv yv = n\<lparr>layer := Some (Lnum l), nx := Some (Num xv), ny := Some (Num yv)\<rparr>"

definition shadowed_pass1 :: "node list" where
  "shadowed_pass1 =
     [placed (mk_node ''r'' []) 0 500 34,
      placed (mk_node ''v'' [''w'']) 1 417 300, placed (mk_node ''v'' [''r'']) 1 583 300,
      placed (mk_node ''w0'' [''v'']) 2 417 566, placed (mk_node ''w'' [''v'']) 2 583 566]"

definition shadowed_pass2 :: "node list" where
  "shadowed_pass2 =
     [placed (mk_node ''r'' []) 0 500 34,
      placed (mk_node ''v'' [''w'']) 1 583 300, placed (mk_node ''v'' [''r'']) 1 417 300,
      placed (mk_node ''w0'' [''v'']) 2 417 566, placed (mk_node ''w'' [''v'']) 2 583 566]"

definition no_config :: config where
  "no_config = \<lparr>cfg_nodeWidth = None, cfg_nodeHeight = None, cfg_nodeGap = None,
                 cfg_layerPadding = None\<rparr>"

definition default_sizes :: sizes where
  "default_sizes = \<lparr>nodeWidth = 136, nodeHeight = 44, nodeGap = 30, layerPadding = 34\<rparr>"

section \<open>Cascading revocation\<close>

lemma cascadeRemove_subset: "cascadeRemove nodes i ns completed \<subseteq> completed"
  by (induction nodes i ns completed rule: cascadeRemove.induct) (auto split: if_splits)

lemma cascadeRemove_direct:
  "n \<in> set ns \<Longrightarrow> i \<in> set (prereqs_of n) \<Longrightarrow> nid n \<notin> cascadeRemove nodes i ns completed"
proof (induction nodes i ns completed rule: cascadeRemove.induct)
  case (1 nodes i completed)
  then show ?case by simp
next
  case (2 nodes i m ns completed)
  show ?case
  proof (cases "i \<in> set (prereqs_of m) \<and> nid m \<in> completed")
    case True
    let ?C = "cascadeRemove nodes (nid m) nodes (completed - {nid m})"
    have sub: "cascadeRemove nodes i ns ?C \<subseteq> ?C" "?C \<subseteq> completed - {nid m}"
      by (rule cascadeRemove_subset)+
    show ?thesis
    proof (cases "n = m")
      case True
      with sub \<open>i \<in> set (prereqs_of m) \<and> nid m \<in> completed\<close> show ?thesis by auto
    next
      case False
      with 2 True show ?thesis by simp
    qed
  next
    case False
    show ?thesis
    proof (cases "n = m")
      case True
      with False 2 cascadeRemove_subset[of nodes i ns completed] show ?thesis by auto
    next
      case nm: False
      with 2 False show ?thesis by auto
    qed
  qed
qed

lemma cascadeRemove_removed:
  "r \<in> completed \<Longrightarrow> r \<notin> cascadeRemove nodes i ns completed \<Longrightarrow>
   m \<in> set nodes \<Longrightarrow> r \<in> set (prereqs_of m) \<Longrightarrow> nid m \<notin> cascadeRemove nodes i ns completed"
proof (induction nodes i ns completed rule: cascadeRemove.induct)
  case (1 nodes i completed)
  then show ?case by simp
next
  case (2 nodes i n ns completed)
  show ?case
  proof (cases "i \<in> set (prereqs_of n) \<and> nid n \<in> completed")
    case True
    let ?C = "cascadeRemove nodes (nid n) nodes (completed - {nid n})"
    let ?R = "cascadeRemove nodes i ns ?C"
    have R: "cascadeRemove nodes i (n # ns) completed = ?R" using True by simp
    have sub: "?R \<subseteq> ?C" "?C \<subseteq> completed - {nid n}"
      by (rule cascadeRemove_subset)+
    have r: "r \<notin> ?R" using 2(5) R by simp
    consider "r = nid n" | "r \<noteq> nid n" "r \<notin> ?C" | "r \<in> ?C" by blast
    then have "nid m \<notin> ?R"
    proof cases
      case 1
      then have "nid m \<notin> ?C"
        using cascadeRemove_direct[OF 2(6), of "nid n" nodes "completed - {nid n}"] 2(7) by simp
      with sub show ?thesis by blast
    next
      case 2
      then have "r \<in> completed - {nid n}" using "2.prems"(1) by simp
      from "2.IH"(1)[OF True this 2(2) "2.prems"(3,4)] sub show ?thesis by blast
    next
      case 3
      from "2.IH"(2)[OF True 3 r "2.prems"(3,4)] show ?thesis .
    qed
    with R show ?thesis by simp
  next
    case False
    with 2 show ?thesis by auto
  qed
qed

lemma cascadeRemove_reach:
  "set ns \<subseteq> set nodes \<Longrightarrow> r \<in> completed \<Longrightarrow> r \<notin> cascadeRemove nodes i ns completed \<Longrightarrow>
   (i, r) \<in> (dependents nodes)\<^sup>+"
proof (induction nodes i ns completed rule: cascadeRemove.induct)
  case (1 nodes i completed)
  then show ?case by simp
next
  case (2 nodes i n ns completed)
  show ?case
  proof (cases "i \<in> set (prereqs_of n) \<and> nid n \<in> completed")
    case True
    let ?C = "cascadeRemove nodes (nid n) nodes (completed - {nid n})"
    let ?R = "cascadeRemove nodes i ns ?C"
    have r: "r \<notin> ?R" using "2.prems"(3) True by simp
    have edge: "(i, nid n) \<in> dependents nodes"
      using True "2.prems"(1) by (auto simp: dependents_def)
    consider "r = nid n" | "r \<noteq> nid n" "r \<notin> ?C" | "r \<in> ?C" by blast
    then show ?thesis
    proof cases
      case 1
      with edge show ?thesis by auto
    next
      case 2
      then have "r \<in> completed - {nid n}" using "2.prems"(2) by simp
      from "2.IH"(1)[OF True _ this 2(2)] have "(nid n, r) \<in> (dependents nodes)\<^sup>+" by simp
      with edge show ?thesis by (rule trancl_into_trancl2)
    next
      case 3
      from "2.IH"(2)[OF True _ 3 r] "2.prems"(1) show ?thesis by simp
    qed
  next
    case False
    with 2 show ?thesis by auto
  qed
qed

lemma completion_inv_iff:
  "completion_inv nodes completed \<longleftrightarrow>
     (\<forall>n \<in> set nodes. nid n \<in> completed \<longrightarrow> set (prereqs_of n) \<subseteq> completed)"
  by (auto simp: completion_inv_def list_all_iff)

lemma isUnlocked_iff: "isUnlocked completed node \<longleftrightarrow> set (prereqs_of node) \<subseteq> completed"
  by (auto simp: isUnlocked_def prereqs_of_def list_all_iff split: option.splits)

lemma downstream_gone:
  assumes inv: "completion_inv nodes completed"
    and d: "(i, m) \<in> (dependents nodes)\<^sup>+"
  shows "m \<notin> cascadeRemove nodes i nodes completed"
  using d
proof (induction rule: trancl_induct)
  case (base y)
  then show ?case by (auto simp: dependents_def cascadeRemove_direct)
next
  case (step y z)
  from step(2) obtain n where n: "n \<in> set nodes" "y \<in> set (prereqs_of n)" "z = nid n"
    by (auto simp: dependents_def)
  show ?case
  proof (cases "y \<in> completed")
    case True
    from cascadeRemove_removed[OF True step(3) n(1,2)] n(3) show ?thesis by simp
  next
    case False
    with inv n have "z \<notin> completed" by (auto simp: completion_inv_iff)
    with cascadeRemove_subset[of nodes i nodes completed] show ?thesis by blast
  qed
qed

lemma toggle_done:
  assumes inv: "completion_inv nodes completed" and dn: "nid node \<in> completed"
  shows "toggle nodes node completed = completed - ({nid node} \<union> downstream nodes (nid node))"
proof -
  let ?R = "cascadeRemove nodes (nid node) nodes completed"
  have t: "toggle nodes node completed = ?R - {nid node}"
    using dn by (simp add: toggle_def Let_def)
  have "?R - {nid node} = completed - ({nid node} \<union> downstream nodes (nid node))"
  proof (intro equalityI subsetI)
    fix a assume a: "a \<in> ?R - {nid node}"
    then have "a \<in> completed" using cascadeRemove_subset[of nodes "nid node" nodes completed] by blast
    moreover have "a \<notin> downstream nodes (nid node)"
      using a downstream_gone[OF inv, of "nid node" a] by (auto simp: downstream_def)
    ultimately show "a \<in> completed - ({nid node} \<union> downstream nodes (nid node))"
      using a by simp
  next
    fix a assume a: "a \<in> completed - ({nid node} \<union> downstream nodes (nid node))"
    then have "a \<in> ?R"
      using cascadeRemove_reach[of nodes nodes a completed "nid node"]
      by (auto simp: downstream_def)
    with a show "a \<in> ?R - {nid node}" by simp
  qed
  with t show ?thesis by simp
qed

lemma chain_toggle_A:
  "toggle chain (mk_node ''A'' []) {''A'', ''B'', ''C''} = {}"
  by (auto simp add: toggle_def chain_def mk_node_def isUnlocked_def prereqs_of_def)

lemma chain_toggle_B:
  "toggle chain (mk_node ''B'' [''A'']) {''A'', ''B'', ''C''} = {''A''}"
  by (auto simp add: toggle_def chain_def mk_node_def isUnlocked_def prereqs_of_def)

lemma chain_inv: "completion_inv chain {''A'', ''B'', ''C''}"
  by (simp add: completion_inv_def chain_def mk_node_def prereqs_of_def)

text \<open>
  Claim C1.  Whatever the node list, when the completion invariant holds and the toggled node
  is completed, \<^verbatim>\<open>toggle\<close> removes from the set the node's id and every id downstream of it
  along the reversed prereqs edges, and nothing else.  In the chain where C requires B and B
  requires A, all three completed, toggling A empties the set and toggling B leaves A alone.
\<close>
theorem toggle_revokes_downstream_closure:
  "(completion_inv nodes completed \<and> nid node \<in> completed \<longrightarrow>
      toggle nodes node completed = completed - ({nid node} \<union> downstream nodes (nid node)))
   \<and> toggle chain (mk_node ''A'' []) {''A'', ''B'', ''C''} = {}
   \<and> toggle chain (mk_node ''B'' [''A'']) {''A'', ''B'', ''C''} = {''A''}"
  using toggle_done chain_toggle_A chain_toggle_B by blast

theorem toggle_revokes_downstream_closure_witness:
  "completion_inv chain {''A'', ''B'', ''C''} \<and> nid (mk_node ''B'' [''A'']) \<in> {''A'', ''B'', ''C''}
   \<and> toggle chain (mk_node ''B'' [''A'']) {''A'', ''B'', ''C''} =
       {''A'', ''B'', ''C''} - ({''B''} \<union> downstream chain ''B'')"
  using toggle_revokes_downstream_closure[of chain "{''A'', ''B'', ''C''}" "mk_node ''B'' [''A'']"] chain_inv
  by (simp add: mk_node_def)

lemma toggle_inv:
  assumes d: "distinct (map nid nodes)" and inv: "completion_inv nodes completed"
    and mem: "node \<in> set nodes"
  shows "completion_inv nodes (toggle nodes node completed)"
proof (cases "nid node \<in> completed")
  case True
  let ?D = "{nid node} \<union> downstream nodes (nid node)"
  have t: "toggle nodes node completed = completed - ?D"
    using toggle_done[OF inv True] .
  have "set (prereqs_of n) \<subseteq> completed - ?D"
    if n: "n \<in> set nodes" and c: "nid n \<in> completed - ?D" for n
  proof
    fix p assume p: "p \<in> set (prereqs_of n)"
    have e: "(p, nid n) \<in> dependents nodes" using n p by (auto simp: dependents_def)
    have "p \<in> completed" using inv n c p by (auto simp: completion_inv_iff)
    moreover have "p \<noteq> nid node" using e c by (auto simp: downstream_def)
    moreover have "p \<notin> downstream nodes (nid node)"
      using e c by (auto simp: downstream_def intro: trancl_into_trancl)
    ultimately show "p \<in> completed - ?D" by simp
  qed
  then show ?thesis unfolding t completion_inv_iff by blast
next
  case False
  show ?thesis
  proof (cases "isUnlocked completed node")
    case u: True
    have t: "toggle nodes node completed = insert (nid node) completed"
      using False u by (simp add: toggle_def Let_def)
    have "set (prereqs_of n) \<subseteq> insert (nid node) completed"
      if n: "n \<in> set nodes" and c: "nid n \<in> insert (nid node) completed" for n
    proof (cases "nid n = nid node")
      case True
      with d n mem have "n = node" by (meson distinct_map inj_onD)
      with u show ?thesis by (auto simp: isUnlocked_iff)
    next
      case False
      with inv n c show ?thesis by (auto simp: completion_inv_iff)
    qed
    then show ?thesis unfolding t completion_inv_iff by blast
  next
    case u: False
    with False inv show ?thesis by (simp add: toggle_def Let_def)
  qed
qed

lemma toggle_adds_only_unlocked:
  "toggle nodes node completed \<subseteq> insert (nid node) completed \<and>
   (nid node \<in> toggle nodes node completed - completed \<longrightarrow> isUnlocked completed node)"
  using cascadeRemove_subset[of nodes "nid node" nodes completed]
  by (auto simp: toggle_def Let_def)

lemma chain_well_formed: "well_formed chain"
  by (simp add: well_formed_def chain_def mk_node_def prereqs_of_def)

lemma chain_acyclic: "acyclic_graph chain"
  unfolding acyclic_graph_def
  by (rule acyclicI_order[where f = "\<lambda>s. if s = ''A'' then (2::nat) else if s = ''B'' then 1 else 0"])
     (auto simp: dependents_def chain_def mk_node_def prereqs_of_def)

text \<open>
  Claim C2.  For a well-formed acyclic graph the completion invariant (no completed node has
  a prereq that is not completed) holds of the empty set, and \<^verbatim>\<open>toggle\<close> of a node of
  the graph and \<^verbatim>\<open>reset\<close> preserve it.  A toggle adds no id but the node's own, and adds it
  only when the node is unlocked, that is when all its prereqs are in the set.
\<close>
theorem completion_invariant_preserved:
  assumes "well_formed nodes" and "acyclic_graph nodes"
  shows "completion_inv nodes {}
    \<and> (\<forall>completed node. completion_inv nodes completed \<and> node \<in> set nodes \<longrightarrow>
          completion_inv nodes (toggle nodes node completed)
          \<and> toggle nodes node completed \<subseteq> insert (nid node) completed
          \<and> (nid node \<in> toggle nodes node completed - completed \<longrightarrow> isUnlocked completed node))
    \<and> (\<forall>completed. completion_inv nodes (reset completed))"
proof (intro conjI allI impI)
  show "completion_inv nodes {}" by (simp add: completion_inv_iff)
  show "completion_inv nodes (reset completed)" for completed
    by (simp add: completion_inv_iff reset_def)
  show "completion_inv nodes (toggle nodes node completed)"
    if "completion_inv nodes completed \<and> node \<in> set nodes" for completed node
    using that assms(1) toggle_inv by (simp add: well_formed_def)
  show "toggle nodes node completed \<subseteq> insert (nid node) completed" for completed node
    using toggle_adds_only_unlocked by blast
  show "isUnlocked completed node"
    if "nid node \<in> toggle nodes node completed - completed" for completed node
    using that toggle_adds_only_unlocked by blast
qed

theorem completion_invariant_preserved_witness:
  "well_formed chain \<and> acyclic_graph chain \<and> completion_inv chain {''A''}
   \<and> mk_node ''B'' [''A''] \<in> set chain
   \<and> completion_inv chain (toggle chain (mk_node ''B'' [''A'']) {''A''})"
  using completion_invariant_preserved[OF chain_well_formed chain_acyclic] chain_well_formed chain_acyclic
  by (simp add: completion_inv_def chain_def mk_node_def prereqs_of_def)

lemma cascadeRemove_nothing:
  "\<forall>n \<in> set ns. i \<in> set (prereqs_of n) \<longrightarrow> nid n \<notin> completed \<Longrightarrow>
   cascadeRemove nodes i ns completed = completed"
  by (induction ns) auto

lemma cascadeRemove_fresh:
  assumes free: "\<forall>n \<in> set nodes. i \<in> set (prereqs_of n) \<longrightarrow> nid n \<notin> completed"
    and ni: "i \<notin> completed"
    and sub: "set ns \<subseteq> set nodes" and c: "c = completed \<or> c = insert i completed"
  shows "cascadeRemove nodes i ns c - {i} = completed"
  using sub c
proof (induction ns arbitrary: c)
  case Nil
  then show ?case using ni by auto
next
  case (Cons n ns)
  show ?case
  proof (cases "i \<in> set (prereqs_of n) \<and> nid n \<in> c")
    case True
    then have "nid n \<notin> completed" using free Cons.prems(1) by auto
    with True Cons.prems(2) have e: "nid n = i" "c = insert i completed" by auto
    then have cc: "c - {nid n} = completed" using ni by auto
    have "cascadeRemove nodes i nodes completed = completed"
      using free by (intro cascadeRemove_nothing) auto
    then have "cascadeRemove nodes (nid n) nodes (c - {nid n}) = completed"
      using cc e(1) by simp
    then have "cascadeRemove nodes i (n # ns) c = cascadeRemove nodes i ns completed"
      using True by simp
    with Cons.IH[of completed] Cons.prems(1) show ?thesis by simp
  next
    case False
    then have "cascadeRemove nodes i (n # ns) c = cascadeRemove nodes i ns c" by auto
    with Cons show ?thesis by auto
  qed
qed

text \<open>
  Claim C10.  When the completion invariant holds, toggling a node that is unlocked and not
  completed and then toggling it again gives back the completion set from before the first
  toggle.
\<close>
theorem toggle_twice_restores:
  assumes "completion_inv nodes completed" and "isUnlocked completed node"
    and "nid node \<notin> completed"
  shows "toggle nodes node (toggle nodes node completed) = completed"
proof -
  have t: "toggle nodes node completed = insert (nid node) completed"
    using assms(2,3) by (simp add: toggle_def Let_def)
  have free: "\<forall>n \<in> set nodes. nid node \<in> set (prereqs_of n) \<longrightarrow> nid n \<notin> completed"
    using assms(1,3) by (auto simp: completion_inv_iff)
  have "toggle nodes node (insert (nid node) completed) =
      cascadeRemove nodes (nid node) nodes (insert (nid node) completed) - {nid node}"
    by (simp add: toggle_def Let_def)
  also have "\<dots> = completed"
    using cascadeRemove_fresh[OF free assms(3), of nodes "insert (nid node) completed"] by simp
  finally show ?thesis using t by simp
qed

theorem toggle_twice_restores_witness:
  "completion_inv chain {''A''} \<and> isUnlocked {''A''} (mk_node ''B'' [''A''])
   \<and> nid (mk_node ''B'' [''A'']) \<notin> {''A''}
   \<and> toggle chain (mk_node ''B'' [''A'']) (toggle chain (mk_node ''B'' [''A'']) {''A''}) = {''A''}"
  using toggle_twice_restores[of chain "{''A''}" "mk_node ''B'' [''A'']"]
  by (simp add: completion_inv_def chain_def mk_node_def prereqs_of_def isUnlocked_def)

section \<open>Layer assignment\<close>

subsection \<open>The index\<close>

lemma nodeMap_snoc: "nodeMap (ns @ [n]) = (nodeMap ns)(nid n \<mapsto> n)"
  by (simp add: nodeMap_def)

lemma nodeMap_Nil: "nodeMap [] = Map.empty"
  by (simp add: nodeMap_def)

lemma nodeMap_Some: "nodeMap nodes i = Some n \<Longrightarrow> n \<in> set nodes \<and> nid n = i"
  by (induction nodes rule: rev_induct) (auto simp: nodeMap_snoc nodeMap_Nil split: if_splits)

lemma dom_nodeMap: "dom (nodeMap nodes) = nid ` set nodes"
proof (induction nodes rule: rev_induct)
  case Nil
  show ?case by (simp add: nodeMap_Nil)
next
  case (snoc x xs)
  have "dom (nodeMap (xs @ [x])) = insert (nid x) (dom (nodeMap xs))"
    by (simp only: nodeMap_snoc dom_fun_upd) simp
  with snoc show ?case by auto
qed

lemma nodeMap_distinct:
  "distinct (map nid nodes) \<Longrightarrow> n \<in> set nodes \<Longrightarrow> nodeMap nodes (nid n) = Some n"
proof (induction nodes rule: rev_induct)
  case Nil
  then show ?case by simp
next
  case (snoc x xs)
  show ?case
  proof (cases "n = x")
    case True
    then show ?thesis by (simp add: nodeMap_snoc)
  next
    case False
    with snoc.prems have n: "n \<in> set xs" by auto
    from snoc.prems have "nid x \<notin> nid ` set xs" by simp
    with n have "nid n \<noteq> nid x" by (metis imageI)
    with snoc n show ?thesis by (simp add: nodeMap_snoc)
  qed
qed

lemma nodeMap_map:
  "(\<And>n. nid (f n) = nid n) \<Longrightarrow> nodeMap (map f ns) i = map_option f (nodeMap ns i)"
  by (induction ns rule: rev_induct) (auto simp: nodeMap_snoc nodeMap_Nil)

subsection \<open>Reading the cache\<close>

lemma cacheRead_Some_iff:
  "cacheRead c i = Some v \<longleftrightarrow> c i = Some v \<or> (c i = None \<and> i \<in> set inherited \<and> v = Lobj)"
  by (auto simp: cacheRead_def getProp_def split: option.splits)

lemma cacheRead_None_iff: "cacheRead c i = None \<longleftrightarrow> c i = None \<and> i \<notin> set inherited"
  by (auto simp: cacheRead_def getProp_def split: option.splits)

lemma cacheRead_upd_other: "p \<noteq> i \<Longrightarrow> cacheRead (c(i \<mapsto> l)) p = cacheRead c p"
  by (simp add: cacheRead_def getProp_def)

lemma cacheRead_mono:
  assumes "\<forall>i \<in> dom c'. i \<notin> set inherited" and "c \<subseteq>\<^sub>m c'" and "cacheRead c p = Some v"
  shows "cacheRead c' p = Some v"
proof (cases "c p")
  case None
  with assms(3) have p: "p \<in> set inherited" "v = Lobj" by (simp_all add: cacheRead_Some_iff)
  with assms(1) have "c' p = None" by auto
  with p show ?thesis by (simp add: cacheRead_Some_iff)
next
  case (Some w)
  with assms(3) have "w = v" by (simp add: cacheRead_Some_iff)
  with Some assms(2) have "c' p = Some v" by (auto simp: map_le_def dom_def)
  then show ?thesis by (simp add: cacheRead_Some_iff)
qed

lemma cacheRead_mono_ok:
  assumes "cache_ok nm c'" and "c \<subseteq>\<^sub>m c'" and "cacheRead c p = Some v"
  shows "cacheRead c' p = Some v"
proof -
  from assms(1) have "\<forall>i \<in> dom c'. i \<notin> set inherited" unfolding cache_ok_def by (rule conjunct1)
  then show ?thesis using assms(2,3) by (rule cacheRead_mono)
qed

lemma mathMax_Lnum:
  assumes "mathMax vs = Lnum l"
  shows "(\<forall>v \<in> set vs. numOf v \<noteq> None) \<and> l = Max (set (map (\<lambda>v. the (numOf v)) vs))"
proof (cases "list_all (\<lambda>v. numOf v \<noteq> None) vs")
  case True
  with assms show ?thesis by (simp add: mathMax_def list_all_iff)
next
  case False
  with assms show ?thesis by (simp add: mathMax_def)
qed

lemma numOf_plus1: "numOf (plus1 v) \<noteq> None \<Longrightarrow> \<exists>k. v = Lnum k \<and> numOf (plus1 v) = Some (k + 1)"
  by (cases v) simp_all

lemma numOf_Some: "numOf v = Some k \<longleftrightarrow> v = Lnum k"
  by (cases v) auto

subsection \<open>What a successful pass returns\<close>

lemma cache_ok_empty: "cache_ok nm Map.empty"
  by (simp add: cache_ok_def)

lemma cache_ok_upd:
  assumes ok: "cache_ok nm c" and fresh: "cacheRead c i = None" and nd: "nm i = Some node"
    and sub: "\<forall>p \<in> set (prereqs_of node). cacheRead c p \<noteq> None"
    and l: "l = (if prereqs_of node = [] then Lnum 0
                 else mathMax (map (\<lambda>p. plus1 (the (cacheRead c p))) (prereqs_of node)))"
  shows "cache_ok nm (c(i \<mapsto> l))"
proof -
  have other: "cacheRead (c(i \<mapsto> l)) p = cacheRead c p" if "cacheRead c p \<noteq> None" for p
    using that fresh by (intro cacheRead_upd_other) auto
  have same: "map (\<lambda>p. plus1 (the (cacheRead (c(i \<mapsto> l)) p))) (prereqs_of m)
      = map (\<lambda>p. plus1 (the (cacheRead c p))) (prereqs_of m)"
    if "\<forall>p \<in> set (prereqs_of m). cacheRead c p \<noteq> None" for m
    using that other by (intro map_cong) auto
  have keep: "\<forall>p \<in> set (prereqs_of m). cacheRead (c(i \<mapsto> l)) p \<noteq> None"
    if "\<forall>p \<in> set (prereqs_of m). cacheRead c p \<noteq> None" for m
    using that other by auto
  have d: "\<forall>j \<in> dom (c(i \<mapsto> l)). j \<notin> set inherited"
    using ok fresh by (auto simp: cache_ok_def cacheRead_None_iff)
  have e: "\<exists>node. nm j = Some node
      \<and> (\<forall>p \<in> set (prereqs_of node). cacheRead (c(i \<mapsto> l)) p \<noteq> None)
      \<and> k = (if prereqs_of node = [] then Lnum 0
             else mathMax (map (\<lambda>p. plus1 (the (cacheRead (c(i \<mapsto> l)) p))) (prereqs_of node)))"
    if jk: "(c(i \<mapsto> l)) j = Some k" for j k
  proof (cases "j = i")
    case True
    with jk have "k = l" by simp
    moreover have "l = (if prereqs_of node = [] then Lnum 0
           else mathMax (map (\<lambda>p. plus1 (the (cacheRead (c(i \<mapsto> l)) p))) (prereqs_of node)))"
      unfolding same[OF sub] by (rule l)
    ultimately show ?thesis using True nd keep[OF sub] by blast
  next
    case False
    with jk have "c j = Some k" by simp
    with ok obtain m where m: "nm j = Some m" "\<forall>p \<in> set (prereqs_of m). cacheRead c p \<noteq> None"
      "k = (if prereqs_of m = [] then Lnum 0
            else mathMax (map (\<lambda>p. plus1 (the (cacheRead c p))) (prereqs_of m)))"
      unfolding cache_ok_def by blast
    have "k = (if prereqs_of m = [] then Lnum 0
           else mathMax (map (\<lambda>p. plus1 (the (cacheRead (c(i \<mapsto> l)) p))) (prereqs_of m)))"
      unfolding same[OF m(2)] by (rule m(3))
    with m(1) keep[OF m(2)] show ?thesis by blast
  qed
  show ?thesis unfolding cache_ok_def using d e by blast
qed

lemma mapLayers_ok:
  assumes f: "\<And>c p c' l. cache_ok nm c \<Longrightarrow> f c p = Inr (c', l) \<Longrightarrow>
      cache_ok nm c' \<and> c \<subseteq>\<^sub>m c' \<and> cacheRead c' p = Some l"
  shows "cache_ok nm c \<Longrightarrow> mapLayers f c ps = Inr (c', ls) \<Longrightarrow>
      cache_ok nm c' \<and> c \<subseteq>\<^sub>m c' \<and> ls = map (\<lambda>p. plus1 (the (cacheRead c' p))) ps
      \<and> (\<forall>p \<in> set ps. cacheRead c' p \<noteq> None)"
proof (induction ps arbitrary: c c' ls)
  case Nil
  then show ?case by simp
next
  case (Cons p ps)
  from Cons.prems(2) obtain c1 l ls' where
    1: "f c p = Inr (c1, l)" and 2: "mapLayers f c1 ps = Inr (c', ls')" and 3: "ls = plus1 l # ls'"
    by (auto split: sum.splits prod.splits)
  from f[OF Cons.prems(1) 1] have a: "cache_ok nm c1" "c \<subseteq>\<^sub>m c1" "cacheRead c1 p = Some l" by auto
  from Cons.IH[OF a(1) 2] have b: "cache_ok nm c'" "c1 \<subseteq>\<^sub>m c'"
    "ls' = map (\<lambda>p. plus1 (the (cacheRead c' p))) ps" "\<forall>p \<in> set ps. cacheRead c' p \<noteq> None"
    by auto
  have "cacheRead c' p = Some l"
    using b(1) b(2) a(3) by (rule cacheRead_mono_ok)
  moreover have "c \<subseteq>\<^sub>m c'" using a(2) b(2) by (rule map_le_trans)
  ultimately show ?case using b 3 by auto
qed

lemma computeLayer_ok:
  "cache_ok nm c \<Longrightarrow> computeLayer stack nm c i = Inr (c', l) \<Longrightarrow>
     cache_ok nm c' \<and> c \<subseteq>\<^sub>m c' \<and> cacheRead c' i = Some l"
proof (induction stack arbitrary: c i c' l)
  case 0
  then show ?case by simp
next
  case (Suc stack)
  show ?case
  proof (cases "cacheRead c i")
    case (Some l0)
    with Suc.prems show ?thesis by auto
  next
    case None
    then have ci: "c i = None" "i \<notin> set inherited" by (simp_all add: cacheRead_None_iff)
    have "getProp nm i \<noteq> Undefined" using Suc.prems(2) None by auto
    with ci(2) obtain node where nd: "nm i = Some node"
      by (auto simp: getProp_def split: option.splits if_splits)
    then have gp: "getProp nm i = Own node" by (simp add: getProp_def)
    show ?thesis
    proof (cases "prereqs_of node = []")
      case True
      then have "c' = c(i \<mapsto> Lnum 0) \<and> l = Lnum 0"
        using Suc.prems(2) None gp by (auto simp: prereqs_of_def split: option.splits)
      moreover have "cache_ok nm (c(i \<mapsto> Lnum 0))"
        using Suc.prems(1) None nd True by (intro cache_ok_upd[where node = node]) auto
      moreover have "c \<subseteq>\<^sub>m c(i \<mapsto> Lnum 0)" using ci by (auto simp: map_le_def)
      ultimately show ?thesis by (simp add: cacheRead_Some_iff del: fun_upd_apply add: fun_upd_same)
    next
      case False
      then obtain ps where ps: "prereqs node = Some ps" "ps \<noteq> []" "prereqs_of node = ps"
        by (auto simp: prereqs_of_def split: option.splits)
      have "(case mapLayers (computeLayer stack nm) c ps of
               Inl e \<Rightarrow> Inl e
             | Inr (c', ls) \<Rightarrow> Inr (c'(i \<mapsto> mathMax ls), mathMax ls)) = Inr (c', l)"
        using Suc.prems(2) None gp ps by simp
      then obtain c1 ls where
        m: "mapLayers (computeLayer stack nm) c ps = Inr (c1, ls)"
        and r: "c' = c1(i \<mapsto> mathMax ls)" "l = mathMax ls"
        by (cases "mapLayers (computeLayer stack nm) c ps") (auto simp del: fun_upd_apply)
      have "cache_ok nm c1 \<and> c \<subseteq>\<^sub>m c1 \<and> ls = map (\<lambda>p. plus1 (the (cacheRead c1 p))) ps
          \<and> (\<forall>p \<in> set ps. cacheRead c1 p \<noteq> None)"
        using Suc.prems(1) m by (rule mapLayers_ok[rotated]) (rule Suc.IH)
      then have a: "cache_ok nm c1" "c \<subseteq>\<^sub>m c1" "ls = map (\<lambda>p. plus1 (the (cacheRead c1 p))) ps"
        "\<forall>p \<in> set ps. cacheRead c1 p \<noteq> None" by auto
      have lv: "mathMax ls = (if prereqs_of node = [] then Lnum 0
                 else mathMax (map (\<lambda>p. plus1 (the (cacheRead c1 p))) (prereqs_of node)))"
        using a(3) ps by simp
      show ?thesis
      proof (cases "c1 i")
        case None
        then have fr: "cacheRead c1 i = None" using ci(2) by (simp add: cacheRead_None_iff)
        have "cache_ok nm (c1(i \<mapsto> mathMax ls))"
          using a(1) fr nd _ lv by (rule cache_ok_upd) (use a(4) ps in simp)
        moreover have "c \<subseteq>\<^sub>m c1(i \<mapsto> mathMax ls)"
          using a(2) None by (auto simp: map_le_def dom_def)
        ultimately show ?thesis using r
          by (simp add: cacheRead_Some_iff del: fun_upd_apply add: fun_upd_same)
      next
        case (Some l1)
        with a(1) nd have "l1 = (if prereqs_of node = [] then Lnum 0
                 else mathMax (map (\<lambda>p. plus1 (the (cacheRead c1 p))) (prereqs_of node)))"
          unfolding cache_ok_def by fastforce
        with lv have l1: "l1 = mathMax ls" by simp
        with Some have "c1(i \<mapsto> mathMax ls) = c1" by (auto simp: fun_upd_idem_iff)
        with r have "c' = c1" "c' i = Some l" using Some l1 by simp_all
        with a show ?thesis by (simp add: cacheRead_Some_iff)
      qed
    qed
  qed
qed

lemma assignLayers_ok:
  "cache_ok nm c \<Longrightarrow> assignLayers stack nm c ns = Inr ns' \<Longrightarrow>
     \<exists>c'. cache_ok nm c' \<and> c \<subseteq>\<^sub>m c' \<and> ns' = map (\<lambda>n. n\<lparr>layer := cacheRead c' (nid n)\<rparr>) ns
        \<and> (\<forall>n \<in> set ns. cacheRead c' (nid n) \<noteq> None)"
proof (induction ns arbitrary: c ns')
  case Nil
  then show ?case by auto
next
  case (Cons n ns)
  from Cons.prems(2) obtain c1 l ns1 where
    1: "computeLayer stack nm c (nid n) = Inr (c1, l)"
    and 2: "assignLayers stack nm c1 ns = Inr ns1" and 3: "ns' = n\<lparr>layer := Some l\<rparr> # ns1"
    by (auto split: sum.splits prod.splits)
  from computeLayer_ok[OF Cons.prems(1) 1]
  have a: "cache_ok nm c1" "c \<subseteq>\<^sub>m c1" "cacheRead c1 (nid n) = Some l" by auto
  from Cons.IH[OF a(1) 2] obtain c2 where b: "cache_ok nm c2" "c1 \<subseteq>\<^sub>m c2"
    "ns1 = map (\<lambda>n. n\<lparr>layer := cacheRead c2 (nid n)\<rparr>) ns"
    "\<forall>n \<in> set ns. cacheRead c2 (nid n) \<noteq> None" by auto
  have "cacheRead c2 (nid n) = Some l"
    using b(1) b(2) a(3) by (rule cacheRead_mono_ok)
  moreover have "c \<subseteq>\<^sub>m c2" using a(2) b(2) by (rule map_le_trans)
  ultimately have "cache_ok nm c2 \<and> c \<subseteq>\<^sub>m c2
      \<and> ns' = map (\<lambda>n. n\<lparr>layer := cacheRead c2 (nid n)\<rparr>) (n # ns)
      \<and> (\<forall>n \<in> set (n # ns). cacheRead c2 (nid n) \<noteq> None)"
    using b 3 by auto
  then show ?case by blast
qed

lemma computeLayers_ok:
  assumes "computeLayers stack nodes = Inr nodes'"
  shows "\<exists>c. cache_ok (nodeMap nodes) c
      \<and> nodes' = map (\<lambda>n. n\<lparr>layer := cacheRead c (nid n)\<rparr>) nodes
      \<and> (\<forall>n \<in> set nodes. cacheRead c (nid n) \<noteq> None)"
  using assignLayers_ok[OF cache_ok_empty, of stack "nodeMap nodes" nodes nodes'] assms
  unfolding computeLayers_def by blast


subsection \<open>Which errors the pass can raise\<close>

lemma mapLayers_error:
  assumes "\<And>c p e. p \<in> set ps \<Longrightarrow> f c p = Inl e \<Longrightarrow> P e"
  shows "mapLayers f c ps = Inl e \<Longrightarrow> P e"
  using assms
proof (induction ps arbitrary: c)
  case Nil
  then show ?case by simp
next
  case (Cons p ps)
  show ?case
  proof (cases "f c p")
    case (Inl e')
    with Cons.prems(1) have "e' = e" by simp
    with Inl Cons.prems(2)[of p c e] show ?thesis by simp
  next
    case (Inr r)
    obtain c1 l where r: "r = (c1, l)" by (cases r)
    with Inr Cons.prems(1) have "mapLayers f c1 ps = Inl e"
      by (auto split: sum.splits)
    then show ?thesis using Cons.prems(2) by (intro Cons.IH[of c1]) auto
  qed
qed


lemma computeLayer_RangeError:
  assumes closed: "\<forall>j n. nm j = Some n \<longrightarrow> set (prereqs_of n) \<subseteq> dom nm"
  shows "i \<in> dom nm \<Longrightarrow> computeLayer stack nm c i = Inl e \<Longrightarrow> e = RangeError"
proof (induction stack arbitrary: c i e)
  case 0
  then show ?case by simp
next
  case (Suc stack)
  from Suc.prems(1) obtain node where nd: "nm i = Some node" by auto
  then have gp: "getProp nm i = Own node" by (simp add: getProp_def)
  show ?case
  proof (cases "cacheRead c i")
    case (Some l)
    with Suc.prems show ?thesis by simp
  next
    case None
    show ?thesis
    proof (cases "prereqs node")
      case None': None
      with None gp Suc.prems show ?thesis by simp
    next
      case (Some ps)
      with None gp Suc.prems have m: "mapLayers (computeLayer stack nm) c ps = Inl e"
        by (auto split: sum.splits if_splits)
      have sub: "set ps \<subseteq> dom nm" using closed nd Some by (fastforce simp: prereqs_of_def)
      have "\<And>c p e. p \<in> set ps \<Longrightarrow> computeLayer stack nm c p = Inl e \<Longrightarrow> e = RangeError"
        using sub Suc.IH by blast
      from mapLayers_error[of ps "computeLayer stack nm" "\<lambda>e. e = RangeError", OF this m]
      show ?thesis .
    qed
  qed
qed

lemma assignLayers_error:
  assumes "\<And>c n e. n \<in> set ns \<Longrightarrow> computeLayer stack nm c (nid n) = Inl e \<Longrightarrow> P e"
  shows "assignLayers stack nm c ns = Inl e \<Longrightarrow> P e"
  using assms
proof (induction ns arbitrary: c)
  case Nil
  then show ?case by simp
next
  case (Cons n ns)
  show ?case
  proof (cases "computeLayer stack nm c (nid n)")
    case (Inl e')
    with Cons.prems(1) have "e' = e" by simp
    with Inl Cons.prems(2)[of n c e] show ?thesis by simp
  next
    case (Inr r)
    obtain c1 l where r: "r = (c1, l)" by (cases r)
    with Inr Cons.prems(1) have "assignLayers stack nm c1 ns = Inl e"
      by (auto split: sum.splits)
    then show ?thesis using Cons.prems(2) by (intro Cons.IH[of c1]) auto
  qed
qed


lemma well_formed_iff:
  "well_formed nodes \<longleftrightarrow>
     distinct (map nid nodes) \<and> (\<forall>n \<in> set nodes. set (prereqs_of n) \<subseteq> nid ` set nodes)"
  by (auto simp: well_formed_def list_all_iff)

lemma computeLayers_RangeError:
  assumes nd: "\<forall>n \<in> set nodes. set (prereqs_of n) \<subseteq> nid ` set nodes"
    and e: "computeLayers stack nodes = Inl e"
  shows "e = RangeError"
proof -
  have closed: "\<forall>j n. nodeMap nodes j = Some n \<longrightarrow> set (prereqs_of n) \<subseteq> dom (nodeMap nodes)"
    using nodeMap_Some nd by (simp add: dom_nodeMap)
  have a: "assignLayers stack (nodeMap nodes) Map.empty nodes = Inl e"
    using e by (simp add: computeLayers_def)
  have "\<And>c n e. n \<in> set nodes \<Longrightarrow> computeLayer stack (nodeMap nodes) c (nid n) = Inl e \<Longrightarrow>
      e = RangeError"
    using computeLayer_RangeError[of "nodeMap nodes", OF closed] unfolding dom_nodeMap by blast
  from assignLayers_error[of nodes stack "nodeMap nodes" "\<lambda>e. e = RangeError", OF this a]
  show ?thesis .
qed

lemma plain_iff:
  "plain nodes \<longleftrightarrow>
     (\<forall>n \<in> set nodes. nid n \<notin> set inherited \<and> (\<forall>p \<in> set (prereqs_of n). p \<notin> set inherited))"
  by (simp add: plain_def list_all_iff)

subsection \<open>Without inherited names every layer is a number\<close>

lemma nums_upd: "nums c \<Longrightarrow> numOf v \<noteq> None \<Longrightarrow> nums (c(i \<mapsto> v))"
  by (simp add: nums_def)

lemma mathMax_nums: "\<forall>v \<in> set vs. numOf v \<noteq> None \<Longrightarrow> numOf (mathMax vs) \<noteq> None"
  by (simp add: mathMax_def list_all_iff)

lemma numOf_plus1_iff: "numOf (plus1 v) \<noteq> None \<longleftrightarrow> numOf v \<noteq> None"
  by (cases v) simp_all

lemma mapLayers_nums:
  assumes "\<And>c p c' l. p \<in> set ps \<Longrightarrow> nums c \<Longrightarrow> f c p = Inr (c', l) \<Longrightarrow>
      nums c' \<and> numOf l \<noteq> None"
  shows "nums c \<Longrightarrow> mapLayers f c ps = Inr (c', ls) \<Longrightarrow>
      nums c' \<and> (\<forall>v \<in> set ls. numOf v \<noteq> None)"
  using assms
proof (induction ps arbitrary: c c' ls)
  case Nil
  then show ?case by simp
next
  case (Cons p ps)
  from Cons.prems(2) obtain c1 l ls' where
    1: "f c p = Inr (c1, l)" and 2: "mapLayers f c1 ps = Inr (c', ls')" and 3: "ls = plus1 l # ls'"
    by (auto split: sum.splits prod.splits)
  have a: "nums c1 \<and> numOf l \<noteq> None" using Cons.prems(1) 1 by (intro Cons.prems(3)[of p c c1 l]) simp_all
  then have a1: "nums c1" by simp
  have "nums c' \<and> (\<forall>v \<in> set ls'. numOf v \<noteq> None)"
    using a1 2
  proof (rule Cons.IH)
    fix c p' c' l
    assume "p' \<in> set ps" "nums c" "f c p' = Inr (c', l)"
    then show "nums c' \<and> numOf l \<noteq> None" by (intro Cons.prems(3)[of p' c c' l]) simp_all
  qed
  with a 3 show ?case by (cases l) auto
qed

lemma computeLayer_nums:
  assumes pl: "\<forall>j n. nm j = Some n \<longrightarrow> (\<forall>p \<in> set (prereqs_of n). p \<notin> set inherited)"
  shows "i \<notin> set inherited \<Longrightarrow> nums c \<Longrightarrow> computeLayer stack nm c i = Inr (c', l) \<Longrightarrow>
     nums c' \<and> numOf l \<noteq> None"
proof (induction stack arbitrary: c i c' l)
  case 0
  then show ?case by simp
next
  case (Suc stack)
  show ?case
  proof (cases "cacheRead c i")
    case (Some l0)
    with Suc.prems(3) have e: "c' = c" "l = l0" by simp_all
    from Some Suc.prems(1) have "c i = Some l0" by (simp add: cacheRead_Some_iff)
    with Suc.prems(2) have "numOf l0 \<noteq> None" unfolding nums_def by blast
    with e Suc.prems(2) show ?thesis by simp
  next
    case None
    have "getProp nm i \<noteq> Undefined" using Suc.prems(3) None by auto
    with Suc.prems(1) obtain node where nd: "nm i = Some node"
      by (auto simp: getProp_def split: option.splits if_splits)
    then have gp: "getProp nm i = Own node" by (simp add: getProp_def)
    show ?thesis
    proof (cases "prereqs_of node = []")
      case True
      then have "c' = c(i \<mapsto> Lnum 0) \<and> l = Lnum 0"
        using Suc.prems(3) None gp by (auto simp: prereqs_of_def split: option.splits)
      with Suc.prems(2) show ?thesis by (simp add: nums_upd del: fun_upd_apply)
    next
      case False
      then obtain ps where ps: "prereqs node = Some ps" "ps \<noteq> []" "prereqs_of node = ps"
        by (auto simp: prereqs_of_def split: option.splits)
      have "(case mapLayers (computeLayer stack nm) c ps of
               Inl e \<Rightarrow> Inl e
             | Inr (c', ls) \<Rightarrow> Inr (c'(i \<mapsto> mathMax ls), mathMax ls)) = Inr (c', l)"
        using Suc.prems(3) None gp ps by simp
      then obtain c1 ls where
        m: "mapLayers (computeLayer stack nm) c ps = Inr (c1, ls)"
        and r: "c' = c1(i \<mapsto> mathMax ls)" "l = mathMax ls"
        by (cases "mapLayers (computeLayer stack nm) c ps") (auto simp del: fun_upd_apply)
      have inh: "\<forall>p \<in> set ps. p \<notin> set inherited" using pl nd ps(3) by blast
      have "nums c1 \<and> (\<forall>v \<in> set ls. numOf v \<noteq> None)"
        using Suc.prems(2) m
      proof (rule mapLayers_nums[rotated])
        fix c p c' l
        assume "p \<in> set ps" "nums c" "computeLayer stack nm c p = Inr (c', l)"
        with inh show "nums c' \<and> numOf l \<noteq> None" by (intro Suc.IH[of p c c' l]) simp_all
      qed
      then have "nums c1" "numOf (mathMax ls) \<noteq> None" by (simp_all add: mathMax_nums)
      with r show ?thesis by (simp add: nums_upd del: fun_upd_apply)
    qed
  qed
qed

lemma assignLayers_nums:
  assumes pl: "\<forall>j n. nm j = Some n \<longrightarrow> (\<forall>p \<in> set (prereqs_of n). p \<notin> set inherited)"
  shows "\<forall>n \<in> set ns. nid n \<notin> set inherited \<Longrightarrow> nums c \<Longrightarrow>
     assignLayers stack nm c ns = Inr ns' \<Longrightarrow> \<forall>n \<in> set ns'. layerNum n \<noteq> None"
proof (induction ns arbitrary: c ns')
  case Nil
  then show ?case by simp
next
  case (Cons n ns)
  from Cons.prems(3) obtain c1 l ns1 where
    1: "computeLayer stack nm c (nid n) = Inr (c1, l)"
    and 2: "assignLayers stack nm c1 ns = Inr ns1" and 3: "ns' = n\<lparr>layer := Some l\<rparr> # ns1"
    by (auto split: sum.splits prod.splits)
  have "nid n \<notin> set inherited" using Cons.prems(1) by simp
  from computeLayer_nums[OF pl this Cons.prems(2) 1] have a: "nums c1" "numOf l \<noteq> None" by simp_all
  have "\<forall>n \<in> set ns1. layerNum n \<noteq> None" using _ a(1) 2 by (rule Cons.IH) (use Cons.prems(1) in simp)
  with a(2) 3 show ?case by (simp add: layerNum_def)
qed

lemma computeLayers_plain_nums:
  assumes "plain nodes" and "computeLayers stack nodes = Inr ns"
  shows "\<forall>n \<in> set ns. layerNum n \<noteq> None"
proof -
  have pl: "\<forall>j n. nodeMap nodes j = Some n \<longrightarrow> (\<forall>p \<in> set (prereqs_of n). p \<notin> set inherited)"
    using assms(1) nodeMap_Some[of nodes] unfolding plain_iff by blast
  have ids: "\<forall>n \<in> set nodes. nid n \<notin> set inherited" using assms(1) by (simp add: plain_iff)
  have e: "nums Map.empty" by (simp add: nums_def)
  from assignLayers_nums[OF pl ids e] assms(2) show ?thesis by (simp add: computeLayers_def)
qed

subsection \<open>A pass that returns numbers has met neither a cycle nor a missing id\<close>

lemma cache_entry_numeric:
  assumes ok: "cache_ok nm c" and ci: "c i = Some (Lnum k)"
  shows "\<exists>node. nm i = Some node
     \<and> (\<forall>p \<in> set (prereqs_of node). \<exists>k'. c p = Some (Lnum k'))
     \<and> k = (if prereqs_of node = [] then 0
            else Max ((\<lambda>p. the (numOf (the (c p))) + 1) ` set (prereqs_of node)))"
proof -
  from ok ci obtain node where nd: "nm i = Some node"
    and rd: "\<forall>p \<in> set (prereqs_of node). cacheRead c p \<noteq> None"
    and eq: "Lnum k = (if prereqs_of node = [] then Lnum 0
                else mathMax (map (\<lambda>p. plus1 (the (cacheRead c p))) (prereqs_of node)))"
    unfolding cache_ok_def by blast
  show ?thesis
  proof (cases "prereqs_of node = []")
    case True
    with eq nd show ?thesis by simp
  next
    case False
    let ?vs = "map (\<lambda>p. plus1 (the (cacheRead c p))) (prereqs_of node)"
    from eq False have "mathMax ?vs = Lnum k" by simp
    from mathMax_Lnum[OF this] have
      n: "\<forall>v \<in> set ?vs. numOf v \<noteq> None" and k: "k = Max (set (map (\<lambda>v. the (numOf v)) ?vs))"
      by simp_all
    have own: "\<exists>k'. c p = Some (Lnum k') \<and> the (numOf (plus1 (the (cacheRead c p)))) = k' + 1"
      if p: "p \<in> set (prereqs_of node)" for p
    proof -
      from n p have "numOf (plus1 (the (cacheRead c p))) \<noteq> None" by simp
      from numOf_plus1[OF this] obtain k' where
        k': "the (cacheRead c p) = Lnum k'" "numOf (plus1 (the (cacheRead c p))) = Some (k' + 1)"
        by blast
      from rd p obtain v where v: "cacheRead c p = Some v" by blast
      with k'(1) have "cacheRead c p = Some (Lnum k')" by simp
      then have "c p = Some (Lnum k')" by (simp add: cacheRead_Some_iff)
      with k'(2) show ?thesis by simp
    qed
    have "map (\<lambda>v. the (numOf v)) ?vs = map (\<lambda>p. the (numOf (the (c p))) + 1) (prereqs_of node)"
      unfolding map_map
    proof (rule map_cong[OF refl])
      fix p assume "p \<in> set (prereqs_of node)"
      from own[OF this] show "((\<lambda>v. the (numOf v)) \<circ> (\<lambda>p. plus1 (the (cacheRead c p)))) p
          = the (numOf (the (c p))) + 1" by auto
    qed
    with k have "k = Max ((\<lambda>p. the (numOf (the (c p))) + 1) ` set (prereqs_of node))" by simp
    with False nd own show ?thesis by auto
  qed
qed

lemma computeLayers_numeric:
  assumes d: "distinct (map nid nodes)" and r: "computeLayers stack nodes = Inr ns"
    and num: "\<forall>n \<in> set ns. layerNum n \<noteq> None"
  shows "\<exists>f. ns = map (\<lambda>n. n\<lparr>layer := Some (Lnum (f (nid n)))\<rparr>) nodes
     \<and> (\<forall>n \<in> set nodes. set (prereqs_of n) \<subseteq> nid ` set nodes
          \<and> f (nid n) = (if prereqs_of n = [] then 0
                         else Max ((\<lambda>p. f p + 1) ` set (prereqs_of n))))"
proof -
  from computeLayers_ok[OF r] obtain c where c: "cache_ok (nodeMap nodes) c"
    "ns = map (\<lambda>n. n\<lparr>layer := cacheRead c (nid n)\<rparr>) nodes" by blast
  let ?f = "\<lambda>i. the (numOf (the (c i)))"
  have own: "c (nid n) = Some (Lnum (?f (nid n))) \<and> cacheRead c (nid n) = Some (Lnum (?f (nid n)))"
    if n: "n \<in> set nodes" for n
  proof -
    from n c(2) have "n\<lparr>layer := cacheRead c (nid n)\<rparr> \<in> set ns" by simp
    with num have "layerNum (n\<lparr>layer := cacheRead c (nid n)\<rparr>) \<noteq> None" by blast
    then obtain k where "cacheRead c (nid n) = Some (Lnum k)"
      by (auto simp: layerNum_def numOf_Some split: option.splits)
    moreover from this have "c (nid n) = Some (Lnum k)" by (simp add: cacheRead_Some_iff)
    ultimately show ?thesis by simp
  qed
  have 1: "ns = map (\<lambda>n. n\<lparr>layer := Some (Lnum (?f (nid n)))\<rparr>) nodes"
    unfolding c(2) using own by (intro map_cong) auto
  have 2: "set (prereqs_of n) \<subseteq> nid ` set nodes
      \<and> ?f (nid n) = (if prereqs_of n = [] then 0 else Max ((\<lambda>p. ?f p + 1) ` set (prereqs_of n)))"
    if n: "n \<in> set nodes" for n
  proof -
    from own[OF n] have "c (nid n) = Some (Lnum (?f (nid n)))" by simp
    from cache_entry_numeric[OF c(1) this] obtain m where
      m: "nodeMap nodes (nid n) = Some m" "\<forall>p \<in> set (prereqs_of m). \<exists>k'. c p = Some (Lnum k')"
      "?f (nid n) = (if prereqs_of m = [] then 0 else Max ((\<lambda>p. ?f p + 1) ` set (prereqs_of m)))"
      by blast
    have mn: "m = n" using nodeMap_distinct[OF d n] m(1) by simp
    have "p \<in> nid ` set nodes" if "p \<in> set (prereqs_of n)" for p
    proof -
      from that m(2) mn obtain k' where "c p = Some (Lnum k')" by blast
      with c(1) have "p \<in> dom (nodeMap nodes)" unfolding cache_ok_def by blast
      then show ?thesis by (simp add: dom_nodeMap)
    qed
    with m(3) mn show ?thesis by blast
  qed
  show ?thesis
  proof (intro exI[of _ ?f] conjI)
    show "ns = map (\<lambda>n. n\<lparr>layer := Some (Lnum (?f (nid n)))\<rparr>) nodes" by (rule 1)
  next
    show "\<forall>n \<in> set nodes. set (prereqs_of n) \<subseteq> nid ` set nodes
      \<and> ?f (nid n) = (if prereqs_of n = [] then 0 else Max ((\<lambda>p. ?f p + 1) ` set (prereqs_of n)))"
      using 2 by blast
  qed
qed

lemma computeLayers_Inr_sound:
  assumes d: "distinct (map nid nodes)" and r: "computeLayers stack nodes = Inr nodes'"
    and num: "\<forall>n \<in> set nodes'. layerNum n \<noteq> None"
  shows "acyclic (dependents nodes) \<and> (\<forall>n \<in> set nodes. set (prereqs_of n) \<subseteq> nid ` set nodes)"
proof -
  from computeLayers_numeric[OF d r num] obtain f :: "string \<Rightarrow> nat" where
    f: "\<forall>n \<in> set nodes. set (prereqs_of n) \<subseteq> nid ` set nodes
          \<and> f (nid n) = (if prereqs_of n = [] then 0
                         else Max ((\<lambda>p. f p + 1) ` set (prereqs_of n)))" by blast
  have edge: "f p < f (nid n)" if n: "n \<in> set nodes" and p: "p \<in> set (prereqs_of n)" for n p
  proof -
    have "f p + 1 \<le> Max ((\<lambda>p. f p + 1) ` set (prereqs_of n))"
      using p by (intro Max_ge) auto
    moreover have "prereqs_of n \<noteq> []" using p by auto
    with f n have "f (nid n) = Max ((\<lambda>p. f p + 1) ` set (prereqs_of n))" by simp
    ultimately show ?thesis by linarith
  qed
  have "acyclic ((dependents nodes)\<inverse>)"
    by (rule acyclicI_order[where f = f]) (auto simp: dependents_def edge)
  with f show ?thesis by simp
qed

subsection \<open>On an acyclic graph the pass returns when the stack is deep enough\<close>

lemma mapLayers_total:
  "(\<And>c p. p \<in> set ps \<Longrightarrow> \<exists>r. f c p = Inr r) \<Longrightarrow> \<exists>r. mapLayers f c ps = Inr r"
proof (induction ps arbitrary: c)
  case Nil
  then show ?case by simp
next
  case (Cons p ps)
  from Cons.prems[of p c] obtain c1 l where 1: "f c p = Inr (c1, l)" by auto
  from Cons.IH[of c1] Cons.prems obtain c2 ls where "mapLayers f c1 ps = Inr (c2, ls)" by fastforce
  with 1 show ?case by simp
qed

lemma finite_dependents: "finite (dependents nodes)"
proof -
  have "dependents nodes = (\<Union>n \<in> set nodes. (\<lambda>p. (p, nid n)) ` set (prereqs_of n))"
    by (auto simp: dependents_def)
  then show ?thesis by simp
qed

lemma upstream_subset: "upstream nodes i \<subseteq> insert i (Domain (dependents nodes))"
  by (auto simp: upstream_def elim: converse_rtranclE)

lemma finite_upstream: "finite (upstream nodes i)"
  using upstream_subset finite_dependents
  by (meson finite_Domain finite_insert finite_subset)

lemma upstream_step:
  assumes "acyclic (dependents nodes)" and e: "(p, i) \<in> dependents nodes"
  shows "upstream nodes p \<subset> upstream nodes i"
proof -
  have "upstream nodes p \<subseteq> upstream nodes i"
    using e by (auto simp: upstream_def intro: rtrancl_into_rtrancl)
  moreover have "i \<in> upstream nodes i" by (simp add: upstream_def)
  moreover have "i \<notin> upstream nodes p"
  proof
    assume "i \<in> upstream nodes p"
    then have "(i, p) \<in> (dependents nodes)\<^sup>*" by (simp add: upstream_def)
    from this e have "(i, i) \<in> (dependents nodes)\<^sup>+" by (rule rtrancl_into_trancl1)
    with assms(1) show False by (simp add: acyclic_def)
  qed
  ultimately show ?thesis by blast
qed

lemma upstream_ids:
  assumes nd: "\<forall>n \<in> set nodes. set (prereqs_of n) \<subseteq> nid ` set nodes"
    and i: "i \<in> nid ` set nodes"
  shows "upstream nodes i \<subseteq> nid ` set nodes"
proof
  fix j assume "j \<in> upstream nodes i"
  then have "(j, i) \<in> (dependents nodes)\<^sup>*" by (simp add: upstream_def)
  then show "j \<in> nid ` set nodes"
    using i nd by (cases rule: converse_rtranclE) (auto simp: dependents_def)
qed

lemma computeLayer_total:
  assumes ac: "acyclic (dependents nodes)"
    and nd: "\<forall>n \<in> set nodes. set (prereqs_of n) \<subseteq> nid ` set nodes"
  shows "i \<in> nid ` set nodes \<Longrightarrow> card (upstream nodes i) \<le> stack \<Longrightarrow>
     \<exists>r. computeLayer stack (nodeMap nodes) c i = Inr r"
proof (induction stack arbitrary: i c)
  case 0
  have "i \<in> upstream nodes i" by (simp add: upstream_def)
  with finite_upstream[of nodes i] have "card (upstream nodes i) \<noteq> 0" by auto
  with 0 show ?case by simp
next
  case (Suc stack)
  from Suc.prems(1) obtain node where nd': "nodeMap nodes i = Some node"
    using dom_nodeMap[of nodes] by blast
  then have gp: "getProp (nodeMap nodes) i = Own node" by (simp add: getProp_def)
  show ?case
  proof (cases "cacheRead c i = None \<and> (\<exists>ps. prereqs node = Some ps \<and> ps \<noteq> [])")
    case True
    then obtain ps where ps: "cacheRead c i = None" "prereqs node = Some ps" "ps \<noteq> []" by blast
    have "\<exists>r. computeLayer stack (nodeMap nodes) c1 p = Inr r" if p: "p \<in> set ps" for c1 p
    proof -
      from nodeMap_Some[OF nd'] have mem: "node \<in> set nodes" "nid node = i" by auto
      have pp: "p \<in> set (prereqs_of node)" using p ps by (simp add: prereqs_of_def)
      with mem have e: "(p, i) \<in> dependents nodes" by (auto simp: dependents_def)
      have "card (upstream nodes p) < card (upstream nodes i)"
        using upstream_step[OF ac e] finite_upstream by (intro psubset_card_mono)
      with Suc.prems(2) have "card (upstream nodes p) \<le> stack" by simp
      moreover have "p \<in> nid ` set nodes" using nd mem pp by auto
      ultimately show ?thesis by (intro Suc.IH)
    qed
    then obtain c1 ls where "mapLayers (computeLayer stack (nodeMap nodes)) c ps = Inr (c1, ls)"
      using mapLayers_total[of ps "computeLayer stack (nodeMap nodes)" c] by fastforce
    with ps gp show ?thesis by simp
  next
    case False
    with gp show ?thesis by (cases "cacheRead c i"; cases "prereqs node") auto
  qed
qed

lemma assignLayers_total:
  assumes ac: "acyclic (dependents nodes)"
    and nd: "\<forall>n \<in> set nodes. set (prereqs_of n) \<subseteq> nid ` set nodes"
    and st: "length nodes \<le> stack"
  shows "set ns \<subseteq> set nodes \<Longrightarrow> \<exists>r. assignLayers stack (nodeMap nodes) c ns = Inr r"
proof (induction ns arbitrary: c)
  case Nil
  then show ?case by simp
next
  case (Cons n ns)
  have i: "nid n \<in> nid ` set nodes" using Cons.prems by auto
  have "card (upstream nodes (nid n)) \<le> card (nid ` set nodes)"
    using upstream_ids[OF nd i] by (intro card_mono) auto
  also have "\<dots> \<le> length nodes"
    by (metis card_length length_map list.set_map)
  finally have "card (upstream nodes (nid n)) \<le> stack" using st by simp
  from computeLayer_total[OF ac nd i this, of c] obtain c1 l where
    1: "computeLayer stack (nodeMap nodes) c (nid n) = Inr (c1, l)" by auto
  from Cons.IH[of c1] Cons.prems obtain r where "assignLayers stack (nodeMap nodes) c1 ns = Inr r"
    by auto
  with 1 show ?case by simp
qed

lemma computeLayers_total:
  assumes "acyclic (dependents nodes)"
    and "\<forall>n \<in> set nodes. set (prereqs_of n) \<subseteq> nid ` set nodes"
    and "length nodes \<le> stack"
  shows "\<exists>nodes'. computeLayers stack nodes = Inr nodes'"
  unfolding computeLayers_def using assignLayers_total[OF assms] by simp

lemma dependents_edge:
  "n \<in> set nodes \<Longrightarrow> p \<in> set (prereqs_of n) \<Longrightarrow> (p, nid n) \<in> dependents nodes"
  by (auto simp: dependents_def)


subsection \<open>Example graphs\<close>



lemma scenario_plain: "plain scenario"
  by (simp add: plain_def inherited_def scenario_def mk_node_def prereqs_of_def)

lemma scenario_layers:
  "computeLayers 3 scenario =
     Inr [(mk_node ''a'' [])\<lparr>layer := Some (Lnum 0)\<rparr>, (mk_node ''b'' [''a''])\<lparr>layer := Some (Lnum 1)\<rparr>,
          (mk_node ''c'' [''a'', ''b''])\<lparr>layer := Some (Lnum 2)\<rparr>]"
  by (simp add: computeLayers_def scenario_def mk_node_def nodeMap_def cacheRead_def getProp_def
      inherited_def mathMax_def numeral_3_eq_3)

lemma loop2_well_formed: "well_formed loop2"
  by (simp add: well_formed_def loop2_def mk_node_def prereqs_of_def)

lemma loop2_plain: "plain loop2"
  by (simp add: plain_def inherited_def loop2_def mk_node_def prereqs_of_def)

lemma loop2_cyclic: "\<not> acyclic_graph loop2"
proof -
  have "(''a'', nid (mk_node ''b'' [''a''])) \<in> dependents loop2"
    by (rule dependents_edge) (simp_all add: loop2_def mk_node_def prereqs_of_def)
  moreover have "(''b'', nid (mk_node ''a'' [''b''])) \<in> dependents loop2"
    by (rule dependents_edge) (simp_all add: loop2_def mk_node_def prereqs_of_def)
  ultimately have "(''a'', ''b'') \<in> dependents loop2" "(''b'', ''a'') \<in> dependents loop2"
    by (simp_all add: mk_node_def)
  then have "(''a'', ''a'') \<in> (dependents loop2)\<^sup>+" by (meson trancl.simps)
  then show ?thesis by (auto simp: acyclic_graph_def acyclic_def)
qed

lemma loop2_overflows: "computeLayers 7 loop2 = Inl RangeError"
  by (simp add: computeLayers_def loop2_def mk_node_def nodeMap_def cacheRead_def getProp_def
      inherited_def eval_nat_numeral)

lemma no_edges_acyclic: "\<forall>n \<in> set nodes. prereqs_of n = [] \<Longrightarrow> acyclic_graph nodes"
proof -
  assume "\<forall>n \<in> set nodes. prereqs_of n = []"
  then have "dependents nodes = {}" by (auto simp: dependents_def)
  then show ?thesis by (simp add: acyclic_graph_def acyclic_def)
qed

subsection \<open>The layers of a graph without inherited names\<close>

lemma layers_on_plain_graphs:
  assumes "well_formed nodes" and "acyclic_graph nodes" and "plain nodes"
    and "length nodes \<le> stack"
  shows "\<exists>nodes'. computeLayers stack nodes = Inr nodes'
     \<and> map nid nodes' = map nid nodes \<and> map prereqs nodes' = map prereqs nodes
     \<and> (\<forall>n \<in> set nodes'. layer n =
           Some (Lnum (if prereqs_of n = [] then 0
                       else 1 + Max (layer_of nodes' ` set (prereqs_of n)))))"
proof -
  from assms(1) have d: "distinct (map nid nodes)"
    and nd: "\<forall>n \<in> set nodes. set (prereqs_of n) \<subseteq> nid ` set nodes"
    by (simp_all add: well_formed_iff)
  from computeLayers_total[OF _ nd assms(4)] assms(2) obtain nodes' where
    r: "computeLayers stack nodes = Inr nodes'" by (auto simp: acyclic_graph_def)
  from computeLayers_plain_nums[OF assms(3) r] have num: "\<forall>n \<in> set nodes'. layerNum n \<noteq> None" .
  from computeLayers_numeric[OF d r num] obtain f where
    f1: "nodes' = map (\<lambda>n. n\<lparr>layer := Some (Lnum (f (nid n)))\<rparr>) nodes"
    and f2: "\<forall>n \<in> set nodes. set (prereqs_of n) \<subseteq> nid ` set nodes
          \<and> f (nid n) = (if prereqs_of n = [] then 0
                         else Max ((\<lambda>p. f p + 1) ` set (prereqs_of n)))" by blast
  have lo: "layer_of nodes' p = f p" if p: "p \<in> nid ` set nodes" for p
  proof -
    from p obtain m where m: "nodeMap nodes p = Some m" using dom_nodeMap[of nodes] by blast
    then have "nodeMap nodes' p = Some (m\<lparr>layer := Some (Lnum (f (nid m)))\<rparr>)"
      unfolding f1 by (subst nodeMap_map) simp_all
    moreover have "nid m = p" using nodeMap_Some[OF m] by simp
    ultimately show ?thesis by (simp add: layer_of_def layerNum_def)
  qed
  have "layer n' = Some (Lnum (if prereqs_of n' = [] then 0
                 else 1 + Max (layer_of nodes' ` set (prereqs_of n'))))"
    if "n' \<in> set nodes'" for n'
  proof -
    from that f1 obtain n where n: "n \<in> set nodes" "n' = n\<lparr>layer := Some (Lnum (f (nid n)))\<rparr>"
      by auto
    have pe: "prereqs_of n' = prereqs_of n" using n(2) by (simp add: prereqs_of_def)
    from f2 n(1) have sub: "set (prereqs_of n) \<subseteq> nid ` set nodes"
      and eq: "f (nid n) = (if prereqs_of n = [] then 0
                         else Max ((\<lambda>p. f p + 1) ` set (prereqs_of n)))" by simp_all
    show ?thesis
    proof (cases "prereqs_of n = []")
      case True
      with eq n(2) pe show ?thesis by simp
    next
      case False
      have "(\<lambda>p. f p + 1) ` set (prereqs_of n) = Suc ` f ` set (prereqs_of n)"
        by (auto simp: image_image)
      moreover have "Max (Suc ` f ` set (prereqs_of n)) = Suc (Max (f ` set (prereqs_of n)))"
        using False by (intro mono_Max_commute[symmetric]) (auto simp: mono_def)
      moreover have "f ` set (prereqs_of n) = layer_of nodes' ` set (prereqs_of n)"
        using sub lo by (intro image_cong) auto
      ultimately have "f (nid n) = 1 + Max (layer_of nodes' ` set (prereqs_of n))"
        using eq False by simp
      with False n(2) pe show ?thesis by simp
    qed
  qed
  moreover have "map nid nodes' = map nid nodes" "map prereqs nodes' = map prereqs nodes"
    unfolding f1 by simp_all
  ultimately show ?thesis using r by blast
qed

text \<open>
  Claim C3.  The cache of the layer pass is a plain object, and \<^verbatim>\<open>cache[id] !== undefined\<close>
  also holds when \<open>id\<close> names a member that every object inherits.  The graph of the single
  node \<open>constructor\<close>, without prereqs, is well-formed and acyclic; the pass returns on it, and
  the layer it sets is the inherited member, not 0.  A node that requires it gets the layer
  \<^verbatim>\<open>NaN\<close>, not 1.
\<close>
theorem layer_of_inherited_id_is_not_a_number:
  "well_formed [mk_node ''constructor'' []] \<and> acyclic_graph [mk_node ''constructor'' []]
   \<and> prereqs_of (mk_node ''constructor'' []) = []
   \<and> computeLayers 1 [mk_node ''constructor'' []]
       = Inr [(mk_node ''constructor'' [])\<lparr>layer := Some Lobj\<rparr>]
   \<and> well_formed [mk_node ''constructor'' [], mk_node ''b'' [''constructor'']]
   \<and> acyclic_graph [mk_node ''constructor'' [], mk_node ''b'' [''constructor'']]
   \<and> computeLayers 2 [mk_node ''constructor'' [], mk_node ''b'' [''constructor'']]
       = Inr [(mk_node ''constructor'' [])\<lparr>layer := Some Lobj\<rparr>,
              (mk_node ''b'' [''constructor''])\<lparr>layer := Some Lnan\<rparr>]"
proof -
  have "acyclic_graph [mk_node ''constructor'' []]"
    by (rule no_edges_acyclic) (simp add: mk_node_def prereqs_of_def)
  moreover have "acyclic_graph [mk_node ''constructor'' [], mk_node ''b'' [''constructor'']]"
    unfolding acyclic_graph_def
    by (rule acyclicI_order[where f = "\<lambda>s. if s = ''constructor'' then (1::nat) else 0"])
       (auto simp: dependents_def mk_node_def prereqs_of_def)
  ultimately show ?thesis
    by (simp add: well_formed_def computeLayers_def mk_node_def nodeMap_def prereqs_of_def
        cacheRead_def getProp_def inherited_def mathMax_def eval_nat_numeral)
qed

text \<open>
  Claim C5, as the code has it.  The source has no cycle check and no \<open>CycleDetectedError\<close>.
  On a graph with unique ids, no missing prereq and no id that names an inherited member,
  whose prereqs relation has a cycle, the layer pass never returns layers: whatever the depth
  of the stack, the recursion exhausts it and the pass ends with the runtime's \<open>RangeError\<close>.
\<close>
theorem cyclic_graph_exhausts_stack:
  assumes "well_formed nodes" and "plain nodes" and "\<not> acyclic_graph nodes"
  shows "computeLayers stack nodes = Inl RangeError"
proof (cases "computeLayers stack nodes")
  case (Inl e)
  with assms(1) computeLayers_RangeError[of nodes stack e] show ?thesis
    by (simp add: well_formed_iff)
next
  case (Inr nodes')
  from computeLayers_plain_nums[OF assms(2) Inr] have "\<forall>n \<in> set nodes'. layerNum n \<noteq> None" .
  with assms(1) Inr computeLayers_Inr_sound[of nodes stack nodes'] have "acyclic (dependents nodes)"
    by (simp add: well_formed_iff)
  with assms(3) show ?thesis by (simp add: acyclic_graph_def)
qed

theorem cyclic_graph_exhausts_stack_witness:
  "well_formed loop2 \<and> plain loop2 \<and> \<not> acyclic_graph loop2
   \<and> computeLayers 7 loop2 = Inl RangeError"
  using cyclic_graph_exhausts_stack[OF loop2_well_formed loop2_plain loop2_cyclic, of 7]
    loop2_well_formed loop2_plain loop2_cyclic by simp

theorem cycle_not_detected_counterexample:
  "\<not> acyclic_graph loop2 \<and> computeLayers 7 loop2 = Inl RangeError
   \<and> computeLayers 7 loop2 \<noteq> Inl CycleDetectedError"
  using loop2_cyclic loop2_overflows by simp

section \<open>The two divisions by a count\<close>

lemma updateProgress_ratio:
  assumes "filter (\<lambda>n. ntype n = ''required'') nodes \<noteq> []"
  shows "map_option fillWidth (updateProgress True nodes completed) =
     Some (Num (real (length (filter (\<lambda>n. nid n \<in> completed)
                        (filter (\<lambda>n. ntype n = ''required'') nodes)))
                / real (length (filter (\<lambda>n. ntype n = ''required'') nodes)) * 100))"
  using assms by (simp add: updateProgress_def Let_def js_div_def)

lemma updateProgress_no_required:
  assumes "filter (\<lambda>n. ntype n = ''required'') nodes = []"
  shows "map_option fillWidth (updateProgress True nodes completed) = Some NaN"
  using assms by (simp add: updateProgress_def Let_def js_div_def)

text \<open>
  Claim C6, at a graph with no node of type \<^verbatim>\<open>required\<close>.  For a single node of type
  \<^verbatim>\<open>goal\<close> and an empty completion set, \<^verbatim>\<open>updateProgress\<close> divides 0 by 0 without a guard:
  the text shows 0 of 0 and the width it writes is \<^verbatim>\<open>NaN\<close>, neither 0 nor a handled value.
\<close>
theorem progress_unguarded_division:
  "updateProgress True
     [\<lparr>nid = ''g'', ntype = ''goal'', prereqs = Some [], layer = Some (Lnum 0), nx = None, ny = None\<rparr>] {}
   = Some \<lparr>completedRequired = 0, requiredLength = 0, fillWidth = NaN\<rparr>"
  by (simp add: updateProgress_def js_div_def)

text \<open>
  Claim C7, at a graph whose greatest layer is 0.  For a single node without prereqs, in a
  container of 1000 by 600 with the default sizes, the layout pass divides 0 by
  \<^verbatim>\<open>maxLayer = 0\<close> without a guard: the node gets \<open>x = 500\<close> and \<open>y = NaN\<close>.
\<close>
theorem layout_single_row_y_is_NaN:
  "layout default_sizes 1000 600 [(mk_node ''a'' [])\<lparr>layer := Some (Lnum 0)\<rparr>]
   = Inr [(mk_node ''a'' [])\<lparr>layer := Some (Lnum 0), nx := Some (Num 500), ny := Some NaN\<rparr>]"
  by (simp add: layout_def maxLayer_def layerNum_def layoutLayer_def layerGroup_def
      default_sizes_def mk_node_def js_div_def Let_def)

section \<open>The layout pass\<close>

subsection \<open>Positions apart, the graph stays the same\<close>

lemma unplaced_fields [simp]:
  "nid (unplaced n) = nid n" "layer (unplaced n) = layer n" "prereqs (unplaced n) = prereqs n"
  "ntype (unplaced n) = ntype n" "prereqs_of (unplaced n) = prereqs_of n"
  "layerNum (unplaced n) = layerNum n"
  by (simp_all add: unplaced_def prereqs_of_def layerNum_def)

lemma unplaced_eq_fields:
  "unplaced a = unplaced b \<Longrightarrow>
     nid a = nid b \<and> layer a = layer b \<and> layerNum a = layerNum b \<and> prereqs a = prereqs b
     \<and> prereqs_of a = prereqs_of b"
  by (metis unplaced_fields)

lemma unplaced_update [simp]: "unplaced (n\<lparr>nx := a, ny := b\<rparr>) = unplaced n"
  by (simp add: unplaced_def)

lemma unplaced_eqI:
  "unplaced a = unplaced b \<Longrightarrow> nx a = nx b \<Longrightarrow> ny a = ny b \<Longrightarrow> a = b"
  by (cases a, cases b) (simp add: unplaced_def)

lemma same_graph_nth:
  assumes "map unplaced s = map unplaced t" and "k < length s"
  shows "unplaced (s ! k) = unplaced (t ! k)"
proof -
  have "length s = length t" using assms(1) by (rule map_eq_imp_length_eq)
  with assms show ?thesis by (metis nth_map)
qed

lemma same_graph_length: "map unplaced s = map unplaced t \<Longrightarrow> length s = length t"
  by (rule map_eq_imp_length_eq)


lemma layered_unplaced: "layered (map unplaced ns) = layered ns"
  by (simp add: layered_def comp_def)

lemma same_graph_layered: "map unplaced s = map unplaced t \<Longrightarrow> layered s = layered t"
  by (metis layered_unplaced)

lemma group_set: "set (layerGroup ns L) = {k. k < length ns \<and> layerNum (ns ! k) = Some L}"
  by (auto simp: layerGroup_def)

lemma group_distinct: "distinct (layerGroup ns L)"
  by (simp add: layerGroup_def)

lemma same_graph_group:
  assumes "map unplaced s = map unplaced t"
  shows "layerGroup s L = layerGroup t L"
proof -
  have "length s = length t" using assms by (rule same_graph_length)
  moreover have "layerNum (s ! k) = layerNum (t ! k)" if "k < length s" for k
    using same_graph_nth[OF assms that] unplaced_eq_fields by blast
  ultimately show ?thesis unfolding layerGroup_def by (intro filter_cong) auto
qed

lemma same_graph_maxLayer:
  assumes "map unplaced s = map unplaced t"
  shows "maxLayer s = maxLayer t"
proof -
  have "map layerNum s = map layerNum (map unplaced s)" by (simp add: comp_def)
  also have "\<dots> = map layerNum (map unplaced t)" using assms by simp
  finally have l: "map layerNum s = map layerNum t" by (simp add: comp_def)
  have 1: "(s = []) = (t = [])" using same_graph_length[OF assms] by auto
  have a: "list_ex (\<lambda>n. layerNum n = None) xs = (None \<in> set (map layerNum xs))" for xs :: "node list"
    by (force simp: list_ex_iff)
  have 2: "list_ex (\<lambda>n. layerNum n = None) s = list_ex (\<lambda>n. layerNum n = None) t"
    by (simp only: a l)
  have 3: "map (\<lambda>n. the (layerNum n)) s = map (\<lambda>n. the (layerNum n)) t"
    using arg_cong[OF l, of "map the"] by (simp add: comp_def)
  show ?thesis unfolding maxLayer_def 1 2 3 ..
qed

subsection \<open>Writing the positions of a row\<close>

lemma place_length [simp]: "length (place d sx yv i g ns) = length ns"
  by (induction g arbitrary: i ns) simp_all

lemma place_unplaced: "map unplaced (place d sx yv i g ns) = map unplaced ns"
proof (induction g arbitrary: i ns)
  case Nil
  show ?case by simp
next
  case (Cons k g)
  have "map unplaced (ns[k := (ns ! k)\<lparr>nx := a, ny := b\<rparr>]) = map unplaced ns" for a b
  proof (cases "k < length ns")
    case True
    then have "(map unplaced ns)[k := unplaced (ns ! k)] = map unplaced ns"
      by (metis list_update_id nth_map)
    then show ?thesis by (simp add: map_update)
  next
    case False
    then show ?thesis by (simp add: list_update_beyond)
  qed
  with Cons show ?case by simp
qed

lemma place_other: "k \<notin> set g \<Longrightarrow> place d sx yv i g ns ! k = ns ! k"
  by (induction g arbitrary: i ns) auto

lemma place_nth:
  assumes "distinct g" and "\<forall>k \<in> set g. k < length ns" and "j < length g"
  shows "place d sx yv i g ns ! (g ! j) =
     (ns ! (g ! j))\<lparr>nx := Some (Num (sx + real (i + j) * (nodeWidth d + nodeGap d))),
                    ny := Some yv\<rparr>"
  using assms
proof (induction g arbitrary: i ns j)
  case Nil
  then show ?case by simp
next
  case (Cons k g)
  let ?ns = "ns[k := (ns ! k)\<lparr>nx := Some (Num (sx + real i * (nodeWidth d + nodeGap d))),
                              ny := Some yv\<rparr>]"
  show ?case
  proof (cases j)
    case 0
    have "place d sx yv (i + 1) g ?ns ! k = ?ns ! k"
      using Cons.prems(1) by (intro place_other) simp
    with 0 Cons.prems(2) show ?thesis by simp
  next
    case (Suc j')
    have k: "g ! j' \<noteq> k" using Cons.prems(1,3) Suc by auto
    have "place d sx yv (i + 1) g ?ns ! (g ! j') =
        (?ns ! (g ! j'))\<lparr>nx := Some (Num (sx + real (i + 1 + j') * (nodeWidth d + nodeGap d))),
                        ny := Some yv\<rparr>"
      using Cons.prems Suc by (intro Cons.IH) auto
    with k Suc show ?thesis by simp
  qed
qed


subsection \<open>The sort keys\<close>

lemma sumX_Inr:
  "\<forall>p \<in> set ps. nm p \<noteq> None \<Longrightarrow>
     sumX nm ps = Inr (sum_list (map (\<lambda>p. x_or_0 (nx (the (nm p)))) ps))"
  by (induction ps) (auto simp: getProp_def)

lemma layered_nth:
  assumes "layered ns" and "k < length ns"
  shows "\<exists>l. layerNum (ns ! k) = Some l \<and> (0 < l \<longrightarrow> prereqs (ns ! k) \<noteq> None) \<and>
     (\<forall>p \<in> set (prereqs_of (ns ! k)).
        \<exists>j < length ns. nid (ns ! j) = p \<and> (\<exists>i < l. layerNum (ns ! j) = Some i))"
proof -
  have "ns ! k \<in> set ns" using assms(2) by simp
  with assms(1) obtain l where l: "layerNum (ns ! k) = Some l" "0 < l \<longrightarrow> prereqs (ns ! k) \<noteq> None"
    "\<forall>p \<in> set (prereqs_of (ns ! k)). \<exists>m \<in> set ns. nid m = p \<and> (\<exists>i < l. layerNum m = Some i)"
    unfolding layered_def by blast
  have "\<exists>j < length ns. nid (ns ! j) = p \<and> (\<exists>i < l. layerNum (ns ! j) = Some i)"
    if "p \<in> set (prereqs_of (ns ! k))" for p
    using l(3) that by (metis in_set_conv_nth)
  with l(1,2) show ?thesis by blast
qed

lemma layered_nodeMap:
  assumes "layered ns" and "j < length ns"
  shows "nodeMap ns (nid (ns ! j)) = Some (ns ! j)"
  using assms by (intro nodeMap_distinct) (simp_all add: layered_def)

lemma barycenter_meanX:
  assumes l: "layered ns" and k: "k < length ns" and p: "prereqs (ns ! k) \<noteq> None"
  shows "barycenter (nodeMap ns) (ns ! k) = Inr (meanX ns k)"
proof -
  from p obtain ps where ps: "prereqs (ns ! k) = Some ps" by auto
  then have po: "prereqs_of (ns ! k) = ps" by (simp add: prereqs_of_def)
  have def: "\<forall>p \<in> set ps. nodeMap ns p \<noteq> None"
    using layered_nth[OF l k] layered_nodeMap[OF l] po by fastforce
  have "map (\<lambda>p. x_or_0 (nx (the (nodeMap ns p)))) ps = map (xOf ns) ps"
    using def by (intro map_cong) (auto simp: xOf_def)
  with sumX_Inr[OF def] have s: "sumX (nodeMap ns) ps = Inr (sum_list (map (xOf ns) ps))" by simp
  show ?thesis
    by (cases "ps = []") (simp_all add: barycenter_def ps s meanX_def po)
qed

lemma keyed_Inr:
  "\<forall>k \<in> set g. barycenter nm (ns ! k) = Inr (f k) \<Longrightarrow>
     keyed nm ns g = Inr (map (\<lambda>k. (f k, k)) g)"
  by (induction g) auto

lemma insort_key_pairs:
  "insort_key fst (f k, k) (map (\<lambda>k. (f k, k)) xs) = map (\<lambda>k. (f k, k)) (insort_key f k xs)"
  by (induction xs) auto

lemma sort_key_pairs: "map snd (sort_key fst (map (\<lambda>k. (f k, k)) g)) = sort_key f g"
proof -
  have "sort_key fst (map (\<lambda>k. (f k, k)) g) = map (\<lambda>k. (f k, k)) (sort_key f g)"
    by (induction g) (simp_all add: insort_key_pairs)
  then show ?thesis by (simp add: comp_def)
qed

lemma sort_key_short: "length g < 2 \<Longrightarrow> sort_key f g = g"
  by (cases g; cases "tl g") auto

lemma insort_key_agree:
  "f x = h x \<Longrightarrow> \<forall>y \<in> set ys. f y = h y \<Longrightarrow> insort_key f x ys = insort_key h x ys"
  by (induction ys) auto

lemma sort_key_agree:
  "\<forall>k \<in> set g. f k = h k \<Longrightarrow> sort_key f g = sort_key h g"
proof (induction g)
  case Nil
  show ?case by simp
next
  case (Cons k g)
  then have "sort_key f g = sort_key h g" by simp
  moreover have "insort_key f k (sort_key h g) = insort_key h k (sort_key h g)"
    using Cons.prems by (intro insort_key_agree) auto
  ultimately show ?case by simp
qed

lemma sortGroup_layered:
  assumes l: "layered ns" and L: "0 < L"
  shows "sortGroup ns (layerGroup ns L) = Inr (sort_key (meanX ns) (layerGroup ns L))"
proof (cases "length (layerGroup ns L) < 2")
  case True
  then show ?thesis by (simp add: sortGroup_def sort_key_short)
next
  case False
  have "barycenter (nodeMap ns) (ns ! k) = Inr (meanX ns k)" if "k \<in> set (layerGroup ns L)" for k
  proof -
    from that have k: "k < length ns" "layerNum (ns ! k) = Some L" by (auto simp: group_set)
    with layered_nth[OF l k(1)] L have "prereqs (ns ! k) \<noteq> None" by auto
    with l k(1) show ?thesis by (rule barycenter_meanX)
  qed
  then have "keyed (nodeMap ns) ns (layerGroup ns L) = Inr (map (\<lambda>k. (meanX ns k, k)) (layerGroup ns L))"
    by (intro keyed_Inr) simp
  with False show ?thesis by (simp add: sortGroup_def sort_key_pairs)
qed

lemma layoutLayer_layered:
  assumes "layered ns"
  shows "layoutLayer d W H maxL L ns =
     Inr (place d (startX d W (length (rowOrder ns L))) (rowY d H maxL L) 0 (rowOrder ns L) ns)"
proof (cases "0 < L")
  case True
  with sortGroup_layered[OF assms True] show ?thesis
    by (simp add: layoutLayer_def Let_def rowOrder_def startX_def rowY_def)
next
  case False
  then show ?thesis
    by (simp add: layoutLayer_def Let_def rowOrder_def startX_def rowY_def)
qed

lemma rowOrder_set: "set (rowOrder ns L) = {k. k < length ns \<and> layerNum (ns ! k) = Some L}"
  by (simp add: rowOrder_def group_set)

lemma rowOrder_distinct: "distinct (rowOrder ns L)"
  by (simp add: rowOrder_def group_distinct)

lemma xOf_agree:
  assumes l: "layered s" and g: "map unplaced s = map unplaced t" and a: "agree_below L s t"
    and j: "j < length s" and i: "layerNum (s ! j) = Some i" "i < L"
  shows "xOf s (nid (s ! j)) = xOf t (nid (s ! j))"
proof -
  have lt: "layered t" using same_graph_layered[OF g] l by simp
  have jt: "j < length t" using same_graph_length[OF g] j by simp
  have e: "s ! j = t ! j" using a j i by (auto simp: agree_below_def)
  have "nodeMap s (nid (s ! j)) = Some (s ! j)" using l j by (rule layered_nodeMap)
  moreover have "nodeMap t (nid (t ! j)) = Some (t ! j)" using lt jt by (rule layered_nodeMap)
  ultimately show ?thesis using e by (simp add: xOf_def)
qed

lemma meanX_agree:
  assumes l: "layered s" and g: "map unplaced s = map unplaced t" and a: "agree_below L s t"
    and k: "k < length s" "layerNum (s ! k) = Some L"
  shows "meanX s k = meanX t k"
proof -
  have p: "prereqs_of (s ! k) = prereqs_of (t ! k)"
    using same_graph_nth[OF g k(1)] unplaced_eq_fields by blast
  have "xOf s p = xOf t p" if "p \<in> set (prereqs_of (s ! k))" for p
  proof -
    from layered_nth[OF l k(1)] k(2) that obtain j i where
      "j < length s" "nid (s ! j) = p" "i < L" "layerNum (s ! j) = Some i" by auto
    with xOf_agree[OF l g a, of j i] show ?thesis by simp
  qed
  then have m: "map (xOf s) (prereqs_of (t ! k)) = map (xOf t) (prereqs_of (t ! k))"
    unfolding p by (intro map_cong) auto
  show ?thesis unfolding meanX_def p by (simp only: m)
qed

lemma rowOrder_agree:
  assumes l: "layered s" and g: "map unplaced s = map unplaced t" and a: "agree_below L s t"
  shows "rowOrder s L = rowOrder t L"
proof -
  have "\<forall>k \<in> set (layerGroup s L). meanX s k = meanX t k"
    using meanX_agree[OF l g a] by (auto simp: group_set)
  then have "sort_key (meanX s) (layerGroup s L) = sort_key (meanX t) (layerGroup s L)"
    by (rule sort_key_agree)
  then show ?thesis by (simp add: rowOrder_def same_graph_group[OF g])
qed


subsection \<open>One layer, then the loop\<close>

lemma agree_below_mono: "agree_below M s t \<Longrightarrow> L \<le> M \<Longrightarrow> agree_below L s t"
  by (auto simp: agree_below_def)

lemma row_transfer:
  assumes l: "layered s" and g: "map unplaced s = map unplaced t"
    and a: "agree_below (Suc L) s t" and r: "row d W H maxL s L"
  shows "row d W H maxL t L"
proof -
  have o: "rowOrder s L = rowOrder t L"
    using l g agree_below_mono[OF a] by (intro rowOrder_agree) simp_all
  have "s ! (rowOrder s L ! j) = t ! (rowOrder s L ! j)" if "j < length (rowOrder s L)" for j
  proof -
    from that have "rowOrder s L ! j \<in> set (rowOrder s L)" by simp
    then have "rowOrder s L ! j < length s" "layerNum (s ! (rowOrder s L ! j)) = Some L"
      by (simp_all add: rowOrder_set)
    with a show ?thesis by (auto simp: agree_below_def)
  qed
  with r show ?thesis unfolding row_def o[symmetric] by simp
qed

lemma layoutLayer_step:
  assumes l: "layered s"
  shows "\<exists>s1. layoutLayer d W H maxL L s = Inr s1 \<and> map unplaced s1 = map unplaced s
     \<and> (\<forall>j. j \<notin> set (rowOrder s L) \<longrightarrow> s1 ! j = s ! j) \<and> row d W H maxL s1 L"
proof -
  let ?o = "rowOrder s L"
  let ?s1 = "place d (startX d W (length ?o)) (rowY d H maxL L) 0 ?o s"
  have 1: "layoutLayer d W H maxL L s = Inr ?s1" using l by (rule layoutLayer_layered)
  have 2: "map unplaced ?s1 = map unplaced s" by (rule place_unplaced)
  have 3: "?s1 ! j = s ! j" if "j \<notin> set ?o" for j using that by (rule place_other)
  have "agree_below L s ?s1"
    unfolding agree_below_def using 3 by (auto simp: rowOrder_set)
  with l 2 have o: "rowOrder s L = rowOrder ?s1 L" by (intro rowOrder_agree) simp_all
  have b: "\<forall>k \<in> set ?o. k < length s" by (simp add: rowOrder_set)
  have "nx (?s1 ! (?o ! j)) = Some (Num (startX d W (length ?o) + real j * (nodeWidth d + nodeGap d)))
      \<and> ny (?s1 ! (?o ! j)) = Some (rowY d H maxL L)" if "j < length ?o" for j
    using place_nth[OF rowOrder_distinct b that, of d "startX d W (length ?o)" "rowY d H maxL L" 0]
    by simp
  then have 4: "row d W H maxL ?s1 L" unfolding row_def o[symmetric] by simp
  from 1 2 3 4 show ?thesis by blast
qed

lemma layoutLoop_rows:
  assumes "layered s"
  shows "\<exists>s'. layoutLoop d W H maxL [L..<M] s = Inr s' \<and> map unplaced s' = map unplaced s
     \<and> agree_below L s s' \<and> (\<forall>K. L \<le> K \<and> K < M \<longrightarrow> row d W H maxL s' K)"
  using assms
proof (induction "M - L" arbitrary: L s)
  case 0
  then have e: "[L..<M] = []" by simp
  have "layoutLoop d W H maxL [] s = Inr s" by simp
  moreover have "agree_below L s s" by (simp add: agree_below_def)
  moreover have "\<forall>K. L \<le> K \<and> K < M \<longrightarrow> row d W H maxL s K" using 0 by auto
  ultimately show ?case unfolding e by blast
next
  case (Suc n)
  then have u: "[L..<M] = L # [Suc L..<M]" by (simp add: upt_conv_Cons)
  from layoutLayer_step[OF Suc.prems, of d W H maxL L] obtain s1 where
    s1: "layoutLayer d W H maxL L s = Inr s1" "map unplaced s1 = map unplaced s"
      "\<forall>j. j \<notin> set (rowOrder s L) \<longrightarrow> s1 ! j = s ! j" "row d W H maxL s1 L" by blast
  have l1: "layered s1" using same_graph_layered[OF s1(2)] Suc.prems by simp
  have n: "n = M - Suc L" using Suc(2) by simp
  from Suc(1)[OF n l1] obtain s' where
    s': "layoutLoop d W H maxL [Suc L..<M] s1 = Inr s'" "map unplaced s' = map unplaced s1"
      "agree_below (Suc L) s1 s'" "\<forall>K. Suc L \<le> K \<and> K < M \<longrightarrow> row d W H maxL s' K" by blast
  have 1: "layoutLoop d W H maxL [L..<M] s = Inr s'" using u s1(1) s'(1) by simp
  have 2: "map unplaced s' = map unplaced s" using s1(2) s'(2) by simp
  have len: "length s1 = length s" using same_graph_length[OF s1(2)] .
  have 3: "agree_below L s s'"
    unfolding agree_below_def
  proof (intro allI impI)
    fix j i assume j: "j < length s" "i < L" "layerNum (s ! j) = Some i"
    then have "j \<notin> set (rowOrder s L)" by (simp add: rowOrder_set)
    with s1(3) have e: "s1 ! j = s ! j" by simp
    with s'(3) j len show "s ! j = s' ! j" by (auto simp: agree_below_def)
  qed
  have "row d W H maxL s' L"
    using l1 s'(2)[symmetric] s'(3) s1(4) by (rule row_transfer)
  with s'(4) have 4: "\<forall>K. L \<le> K \<and> K < M \<longrightarrow> row d W H maxL s' K"
    by (metis Suc_leI le_neq_implies_less)
  from 1 2 3 4 show ?case by blast
qed

lemma rows_unique:
  assumes l: "layered s" and g: "map unplaced s = map unplaced t"
    and rs: "\<forall>K. row d W H maxL s K" and rt: "\<forall>K. row d W H maxL t K"
  shows "s = t"
proof -
  have a: "agree_below K s t" for K
  proof (induction K)
    case 0
    show ?case by (simp add: agree_below_def)
  next
    case (Suc K)
    have o: "rowOrder s K = rowOrder t K" using l g Suc by (rule rowOrder_agree)
    show ?case
      unfolding agree_below_def
    proof (intro allI impI)
      fix j i assume j: "j < length s" "i < Suc K" "layerNum (s ! j) = Some i"
      show "s ! j = t ! j"
      proof (cases "i = K")
        case True
        with j have "j \<in> set (rowOrder s K)" by (simp add: rowOrder_set)
        then obtain m where m: "m < length (rowOrder s K)" "rowOrder s K ! m = j"
          by (auto simp: in_set_conv_nth)
        have "row d W H maxL s K" using rs by (rule spec)
        then have "nx (s ! (rowOrder s K ! m)) =
            Some (Num (startX d W (length (rowOrder s K)) + real m * (nodeWidth d + nodeGap d)))
          \<and> ny (s ! (rowOrder s K ! m)) = Some (rowY d H maxL K)"
          unfolding row_def using m(1) by blast
        then have ps: "nx (s ! j) =
            Some (Num (startX d W (length (rowOrder s K)) + real m * (nodeWidth d + nodeGap d)))"
          "ny (s ! j) = Some (rowY d H maxL K)"
          unfolding m(2) by blast+
        have "row d W H maxL t K" using rt by (rule spec)
        then have "nx (t ! (rowOrder s K ! m)) =
            Some (Num (startX d W (length (rowOrder s K)) + real m * (nodeWidth d + nodeGap d)))
          \<and> ny (t ! (rowOrder s K ! m)) = Some (rowY d H maxL K)"
          unfolding row_def o[symmetric] using m(1) by blast
        then have pt: "nx (t ! j) =
            Some (Num (startX d W (length (rowOrder s K)) + real m * (nodeWidth d + nodeGap d)))"
          "ny (t ! j) = Some (rowY d H maxL K)"
          unfolding m(2) by blast+
        show ?thesis
        proof (rule unplaced_eqI)
          show "unplaced (s ! j) = unplaced (t ! j)" using g j(1) by (rule same_graph_nth)
          show "nx (s ! j) = nx (t ! j)" unfolding ps pt ..
          show "ny (s ! j) = ny (t ! j)" unfolding ps pt ..
        qed
      next
        case False
        with j have "i < K" by simp
        with Suc j(1,3) show ?thesis unfolding agree_below_def by blast
      qed
    qed
  qed
  show ?thesis
  proof (rule nth_equalityI)
    show "length s = length t" using g by (rule same_graph_length)
    fix j assume j: "j < length s"
    from layered_nth[OF l j] obtain i where "layerNum (s ! j) = Some i" by blast
    moreover have "i < Suc i" by simp
    ultimately show "s ! j = t ! j" using a[of "Suc i"] j unfolding agree_below_def by blast
  qed
qed

subsection \<open>The whole pass\<close>

lemma maxLayer_layered:
  assumes l: "layered ns" and ne: "ns \<noteq> []"
  shows "\<exists>maxL. maxLayer ns = Some maxL \<and> (\<forall>k < length ns. \<exists>i \<le> maxL. layerNum (ns ! k) = Some i)"
proof -
  have some: "\<forall>n \<in> set ns. layerNum n \<noteq> None" using l by (auto simp: layered_def)
  then have m: "maxLayer ns = Some (Max (set (map (\<lambda>n. the (layerNum n)) ns)))"
    using ne by (auto simp: maxLayer_def list_ex_iff)
  have "\<exists>i \<le> Max (set (map (\<lambda>n. the (layerNum n)) ns)). layerNum (ns ! k) = Some i"
    if k: "k < length ns" for k
  proof -
    from some k obtain i where i: "layerNum (ns ! k) = Some i" by (metis nth_mem not_None_eq)
    have "the (layerNum (ns ! k)) \<in> set (map (\<lambda>n. the (layerNum n)) ns)" using k by auto
    then have "the (layerNum (ns ! k)) \<le> Max (set (map (\<lambda>n. the (layerNum n)) ns))"
      by (intro Max_ge) auto
    with i show ?thesis by simp
  qed
  with m show ?thesis by blast
qed

lemma row_empty: "rowOrder ns K = [] \<Longrightarrow> row d W H maxL ns K"
  by (simp add: row_def)

lemma layout_rows_all:
  assumes l: "layered ns"
  shows "\<exists>ns'. layout d W H ns = Inr ns' \<and> map unplaced ns' = map unplaced ns
     \<and> (\<forall>K. row d W H (the (maxLayer ns)) ns' K)"
proof (cases "ns = []")
  case True
  then have "layout d W H ns = Inr ns" by (simp add: layout_def maxLayer_def)
  moreover have "row d W H (the (maxLayer ns)) ns K" for K
    using True by (intro row_empty) (simp add: rowOrder_def layerGroup_def)
  ultimately show ?thesis by blast
next
  case False
  from maxLayer_layered[OF l False] obtain maxL where
    m: "maxLayer ns = Some maxL" "\<forall>k < length ns. \<exists>i \<le> maxL. layerNum (ns ! k) = Some i" by blast
  from layoutLoop_rows[OF l, of d W H maxL 0 "maxL + 1"] obtain ns' where
    s: "layoutLoop d W H maxL [0..<maxL + 1] ns = Inr ns'" "map unplaced ns' = map unplaced ns"
      "\<forall>K. 0 \<le> K \<and> K < maxL + 1 \<longrightarrow> row d W H maxL ns' K" by blast
  have 1: "layout d W H ns = Inr ns'" using m(1) s(1) by (simp add: layout_def)
  have "row d W H maxL ns' K" for K
  proof (cases "K < maxL + 1")
    case True
    with s(3) show ?thesis by simp
  next
    case False
    have "set (rowOrder ns' K) = {}"
    proof -
      have "layerNum (ns' ! k) \<noteq> Some K" if "k < length ns'" for k
      proof -
        have k: "k < length ns" using that same_graph_length[OF s(2)] by simp
        have "layerNum (ns' ! k) = layerNum (ns ! k)"
          using same_graph_nth[OF s(2) that] unplaced_eq_fields by blast
        with m(2) k False show ?thesis by fastforce
      qed
      then show ?thesis by (auto simp: rowOrder_set)
    qed
    then show ?thesis by (intro row_empty) simp
  qed
  with 1 s(2) m(1) show ?thesis by auto
qed

lemma layout_idempotent:
  assumes l: "layered ns" and r: "layout d W H ns = Inr ns'"
  shows "layout d W H ns' = Inr ns'"
proof -
  from layout_rows_all[OF l, of d W H] r have
    1: "map unplaced ns' = map unplaced ns" "\<forall>K. row d W H (the (maxLayer ns)) ns' K" by auto
  have l': "layered ns'" using same_graph_layered[OF 1(1)] l by simp
  have m: "maxLayer ns' = maxLayer ns" using 1(1) by (rule same_graph_maxLayer)
  from layout_rows_all[OF l', of d W H] obtain ns'' where
    2: "layout d W H ns' = Inr ns''" "map unplaced ns'' = map unplaced ns'"
      "\<forall>K. row d W H (the (maxLayer ns)) ns'' K" unfolding m by blast
  have "ns' = ns''" using l' 2(2)[symmetric] 1(2) 2(3) by (rule rows_unique)
  with 2(1) show ?thesis by simp
qed

lemma renderEdges_no_missing:
  assumes "\<forall>n \<in> set ns. set (prereqs_of n) \<subseteq> nid ` set ns"
  shows "renderEdges ns = Inr ()"
proof -
  have "getProp (nodeMap ns) p \<noteq> Undefined" if "n \<in> set ns" "p \<in> set (prereqs_of n)" for n p
  proof -
    from assms that have "p \<in> dom (nodeMap ns)" unfolding dom_nodeMap by blast
    then show ?thesis by (auto simp: getProp_def)
  qed
  then show ?thesis by (simp add: renderEdges_def list_all_iff)
qed

lemma renderEdges_layered: "layered ns \<Longrightarrow> renderEdges ns = Inr ()"
proof (rule renderEdges_no_missing)
  assume l: "layered ns"
  show "\<forall>n \<in> set ns. set (prereqs_of n) \<subseteq> nid ` set ns"
  proof (intro ballI subsetI)
    fix n p assume "n \<in> set ns" "p \<in> set (prereqs_of n)"
    with l obtain m where "m \<in> set ns" "nid m = p" unfolding layered_def by blast
    then show "p \<in> nid ` set ns" by blast
  qed
qed

lemma layout_not_numeric:
  "\<exists>n \<in> set ns. layerNum n = None \<Longrightarrow> layout d W H ns = Inr ns"
  by (simp add: layout_def maxLayer_def list_ex_iff)

lemma computeLayers_fields:
  assumes "computeLayers stack nodes = Inr ns"
  shows "map nid ns = map nid nodes \<and> map prereqs ns = map prereqs nodes"
proof -
  from computeLayers_ok[OF assms] obtain c where
    "ns = map (\<lambda>n. n\<lparr>layer := cacheRead c (nid n)\<rparr>) nodes" by blast
  then show ?thesis by simp
qed

lemma computeLayers_layered:
  assumes wf: "well_formed nodes" and r: "computeLayers stack nodes = Inr ns"
    and num: "\<forall>n \<in> set ns. layerNum n \<noteq> None"
  shows "layered ns"
proof -
  from wf have d: "distinct (map nid nodes)" by (simp add: well_formed_iff)
  from computeLayers_numeric[OF d r num] obtain f where
    f1: "ns = map (\<lambda>n. n\<lparr>layer := Some (Lnum (f (nid n)))\<rparr>) nodes"
    and f2: "\<forall>n \<in> set nodes. set (prereqs_of n) \<subseteq> nid ` set nodes
          \<and> f (nid n) = (if prereqs_of n = [] then 0
                         else Max ((\<lambda>p. f p + 1) ` set (prereqs_of n)))" by blast
  have per: "\<exists>l. layerNum n' = Some l \<and> (0 < l \<longrightarrow> prereqs n' \<noteq> None) \<and>
        (\<forall>p \<in> set (prereqs_of n'). \<exists>m \<in> set ns. nid m = p \<and> (\<exists>k < l. layerNum m = Some k))"
    if "n' \<in> set ns" for n'
  proof -
    from that f1 obtain n where n: "n \<in> set nodes" "n' = n\<lparr>layer := Some (Lnum (f (nid n)))\<rparr>"
      by auto
    have pe: "prereqs_of n' = prereqs_of n" "prereqs n' = prereqs n"
      "layerNum n' = Some (f (nid n))"
      using n(2) by (simp_all add: prereqs_of_def layerNum_def)
    from f2 n(1) have sub: "set (prereqs_of n) \<subseteq> nid ` set nodes"
      and eq: "f (nid n) = (if prereqs_of n = [] then 0
                         else Max ((\<lambda>p. f p + 1) ` set (prereqs_of n)))" by simp_all
    have z: "0 < f (nid n) \<longrightarrow> prereqs n \<noteq> None"
      using eq by (auto simp: prereqs_of_def split: option.splits)
    have "\<exists>q \<in> set ns. nid q = p \<and> (\<exists>k < f (nid n). layerNum q = Some k)"
      if p: "p \<in> set (prereqs_of n)" for p
    proof -
      from p sub obtain q where qq: "q \<in> set nodes" "nid q = p" by auto
      have "f p + 1 \<le> Max ((\<lambda>p. f p + 1) ` set (prereqs_of n))"
        using p by (intro Max_ge) auto
      moreover have "prereqs_of n \<noteq> []" using p by auto
      ultimately have "f p < f (nid n)" using eq by simp
      moreover have "q\<lparr>layer := Some (Lnum (f (nid q)))\<rparr> \<in> set ns" using qq(1) f1 by auto
      ultimately show ?thesis using qq(2)
        by (intro bexI[of _ "q\<lparr>layer := Some (Lnum (f (nid q)))\<rparr>"]) (auto simp: layerNum_def)
    qed
    with pe z show ?thesis by auto
  qed
  show ?thesis
    unfolding layered_def
  proof (intro conjI ballI)
    show "distinct (map nid ns)" using d computeLayers_fields[OF r] by simp
    fix n' assume "n' \<in> set ns"
    then show "\<exists>l. layerNum n' = Some l \<and> (0 < l \<longrightarrow> prereqs n' \<noteq> None) \<and>
        (\<forall>p \<in> set (prereqs_of n'). \<exists>m \<in> set ns. nid m = p \<and> (\<exists>k < l. layerNum m = Some k))"
      by (rule per)
  qed
qed

subsection \<open>The layout raises nothing but a TypeError\<close>









lemma layout_positions_irrelevant:
  assumes l: "layered s" and g: "map unplaced s = map unplaced t"
  shows "layout d W H s = layout d W H t"
proof -
  have lt: "layered t" using same_graph_layered[OF g] l by simp
  have m: "maxLayer t = maxLayer s" using g[symmetric] by (rule same_graph_maxLayer)
  from layout_rows_all[OF l, of d W H] obtain s' where
    1: "layout d W H s = Inr s'" "map unplaced s' = map unplaced s"
      "\<forall>K. row d W H (the (maxLayer s)) s' K" by blast
  from layout_rows_all[OF lt, of d W H] obtain t' where
    2: "layout d W H t = Inr t'" "map unplaced t' = map unplaced t"
      "\<forall>K. row d W H (the (maxLayer s)) t' K" unfolding m by blast
  have "layered s'" using same_graph_layered[OF 1(2)] l by simp
  moreover have "map unplaced s' = map unplaced t'" using 1(2) 2(2) g by simp
  ultimately have "s' = t'" using 1(3) 2(3) by (rule rows_unique)
  with 1(1) 2(1) show ?thesis by simp
qed

subsection \<open>The vertical coordinate\<close>

lemma rowY_interpolates:
  "0 < maxL \<Longrightarrow>
     rowY d H maxL L = Num (layerPadding d + real L / real maxL * (H - layerPadding d * 2))"
  by (simp add: rowY_def js_div_def)

lemma rowY_single_row: "rowY d H 0 L = NaN"
  by (simp add: rowY_def js_div_def)

lemma layout_y:
  assumes l: "layered ns" and r: "layout d W H ns = Inr ns'"
    and k: "k < length ns" "layerNum (ns ! k) = Some L"
  shows "ny (ns' ! k) = Some (rowY d H (the (maxLayer ns)) L)"
proof -
  from layout_rows_all[OF l, of d W H] r have
    1: "map unplaced ns' = map unplaced ns" "\<forall>K. row d W H (the (maxLayer ns)) ns' K" by auto
  have k': "k < length ns'" using same_graph_length[OF 1(1)] k(1) by simp
  have "layerNum (ns' ! k) = layerNum (ns ! k)"
    using same_graph_nth[OF 1(1) k'] unplaced_eq_fields by blast
  with k' k(2) have "k \<in> set (rowOrder ns' L)" by (simp add: rowOrder_set)
  then obtain m where m: "m < length (rowOrder ns' L)" "rowOrder ns' L ! m = k"
    by (auto simp: in_set_conv_nth)
  have "row d W H (the (maxLayer ns)) ns' L" using 1(2) by (rule spec)
  then have "ny (ns' ! (rowOrder ns' L ! m)) = Some (rowY d H (the (maxLayer ns)) L)"
    unfolding row_def using m(1) by blast
  then show ?thesis unfolding m(2) .
qed


lemma diamond_well_formed: "well_formed diamond"
  by (simp add: well_formed_def diamond_def mk_node_def prereqs_of_def)

lemma diamond_acyclic: "acyclic_graph diamond"
  unfolding acyclic_graph_def
  by (rule acyclicI_order[where f = "\<lambda>s. if s = ''r'' \<or> s = ''s'' then (1::nat) else 0"])
     (auto simp: dependents_def diamond_def mk_node_def prereqs_of_def)

lemma diamond_layers:
  "computeLayers 4 diamond =
     Inr [(mk_node ''r'' [])\<lparr>layer := Some (Lnum 0)\<rparr>, (mk_node ''s'' [])\<lparr>layer := Some (Lnum 0)\<rparr>,
          (mk_node ''u'' [''s''])\<lparr>layer := Some (Lnum 1)\<rparr>, (mk_node ''v'' [''r''])\<lparr>layer := Some (Lnum 1)\<rparr>]"
  by (simp add: computeLayers_def diamond_def mk_node_def nodeMap_def cacheRead_def getProp_def
      inherited_def mathMax_def eval_nat_numeral)


lemma diamond_plain: "plain diamond"
  by (simp add: plain_def inherited_def diamond_def mk_node_def prereqs_of_def)

text \<open>
  Claim C8.  A node whose id names an inherited member gets a layer that is not a number
  (the defect shown for claim C3), \<^verbatim>\<open>maxLayer\<close> is then \<^verbatim>\<open>NaN\<close>, the test \<^verbatim>\<open>L <= maxLayer\<close>
  fails at once and no node of the graph is placed.  On the well-formed graph of the single
  node \<open>constructor\<close>, in a container of 1000 by 600 with the default sizes, construction
  returns an engine whose node has neither \<open>x\<close> nor \<open>y\<close>; with a node \<open>a\<close> before it, \<open>a\<close> is
  given the layer 0 and is not placed either.
\<close>
theorem layout_places_nothing_beside_inherited_id:
  "well_formed [mk_node ''constructor'' []]
   \<and> construct 1 no_config [mk_node ''constructor'' []] 1000 600 =
       Inr \<lparr>this_nodes = [(mk_node ''constructor'' [])\<lparr>layer := Some Lobj, nx := None, ny := None\<rparr>],
            this_completed = {}, this_sizes = default_sizes\<rparr>
   \<and> well_formed [mk_node ''a'' [], mk_node ''constructor'' []]
   \<and> construct 2 no_config [mk_node ''a'' [], mk_node ''constructor'' []] 1000 600 =
       Inr \<lparr>this_nodes = [(mk_node ''a'' [])\<lparr>layer := Some (Lnum 0), nx := None, ny := None\<rparr>,
                          (mk_node ''constructor'' [])\<lparr>layer := Some Lobj, nx := None, ny := None\<rparr>],
            this_completed = {}, this_sizes = default_sizes\<rparr>"
  by (simp add: well_formed_def construct_def computeLayers_def mk_node_def nodeMap_def
      no_config_def or_default_def render_def layout_def maxLayer_def layerNum_def
      renderEdges_def prereqs_of_def default_sizes_def cacheRead_def getProp_def inherited_def
      Let_def eval_nat_numeral)

lemma shadowed_layers: "computeLayers 5 shadowed = Inr (map unplaced shadowed_pass1)"
  by (simp add: computeLayers_def shadowed_def shadowed_pass1_def placed_def unplaced_def
      mk_node_def nodeMap_def cacheRead_def getProp_def inherited_def mathMax_def
      eval_nat_numeral)

lemma shadowed_first:
  "layout default_sizes 1000 600 (map unplaced shadowed_pass1) = Inr shadowed_pass1"
  by (simp add: layout_def maxLayer_def layerNum_def layoutLayer_def layerGroup_def sortGroup_def
      barycenter_def nodeMap_def getProp_def inherited_def x_or_0_def js_div_def Let_def
      shadowed_pass1_def placed_def unplaced_def mk_node_def default_sizes_def eval_nat_numeral)

lemma shadowed_second: "layout default_sizes 1000 600 shadowed_pass1 = Inr shadowed_pass2"
  by (simp add: layout_def maxLayer_def layerNum_def layoutLayer_def layerGroup_def sortGroup_def
      barycenter_def nodeMap_def getProp_def inherited_def x_or_0_def js_div_def Let_def
      shadowed_pass1_def shadowed_pass2_def placed_def mk_node_def default_sizes_def
      eval_nat_numeral)

lemma shadowed_passes_differ: "shadowed_pass1 \<noteq> shadowed_pass2"
  by (simp add: shadowed_pass1_def shadowed_pass2_def placed_def mk_node_def)



lemma layout_skipped_keeps_positions:
  "computeLayers 1 [mk_node ''constructor'' []] = Inr [(mk_node ''constructor'' [])\<lparr>layer := Some Lobj\<rparr>]
   \<and> layout d W H [(mk_node ''constructor'' [])\<lparr>layer := Some Lobj\<rparr>]
       = Inr [(mk_node ''constructor'' [])\<lparr>layer := Some Lobj\<rparr>]
   \<and> map unplaced [(mk_node ''constructor'' [])\<lparr>layer := Some Lobj, nx := Some (Num 7)\<rparr>]
       = map unplaced [(mk_node ''constructor'' [])\<lparr>layer := Some Lobj\<rparr>]
   \<and> layout d W H [(mk_node ''constructor'' [])\<lparr>layer := Some Lobj, nx := Some (Num 7)\<rparr>]
       = Inr [(mk_node ''constructor'' [])\<lparr>layer := Some Lobj, nx := Some (Num 7)\<rparr>]"
  by (simp add: computeLayers_def nodeMap_def cacheRead_def getProp_def inherited_def
      layout_def maxLayer_def layerNum_def unplaced_def mk_node_def)

text \<open>
  Two more inputs with an inherited name.  A prereq \<open>toString\<close> that is no id of the sequence
  is found in the cache and in the index, so nothing raises: the node gets the layer \<^verbatim>\<open>NaN\<close>
  and the engine is built with no node placed.  A node \<open>toString\<close> that requires itself is
  found in the cache at once, so the recursion ends.
\<close>

lemma missing_inherited_id_raises_nothing:
  "construct 2 no_config [mk_node ''a'' [''toString'']] 1000 600 =
     Inr \<lparr>this_nodes = [(mk_node ''a'' [''toString''])\<lparr>layer := Some Lnan\<rparr>],
          this_completed = {}, this_sizes = default_sizes\<rparr>"
  by (simp add: construct_def computeLayers_def mk_node_def nodeMap_def no_config_def
      or_default_def render_def layout_def maxLayer_def layerNum_def renderEdges_def
      prereqs_of_def default_sizes_def cacheRead_def getProp_def inherited_def mathMax_def
      Let_def eval_nat_numeral)

lemma cycle_through_inherited_id_returns:
  "computeLayers 1 [mk_node ''toString'' [''toString'']] =
     Inr [(mk_node ''toString'' [''toString''])\<lparr>layer := Some Lobj\<rparr>]"
  by (simp add: computeLayers_def mk_node_def nodeMap_def cacheRead_def getProp_def
      inherited_def)

text \<open>
  Claim C9, as the code has it.  On a well-formed graph (unique ids, every prereq present)
  whose layers have been assigned, and for every viewport and every sizes, the layout pass
  returns a node list on which a second pass returns the same list again.  When every layer
  is a number, as it is when no id names an inherited member, the pass gives this result
  from any state of the same graph, whatever positions an earlier pass has left in it: for
  each layer the keys of the sort are read from lower layers, which the running pass has
  already placed.  When some layer is not a number the pass places nothing, and any earlier
  positions stay.
\<close>
theorem layout_deterministic:
  assumes "well_formed nodes" and "computeLayers stack nodes = Inr ns"
  shows "\<exists>ns1. layout d W H ns = Inr ns1 \<and> layout d W H ns1 = Inr ns1
     \<and> ((\<forall>n \<in> set ns. layerNum n \<noteq> None) \<longrightarrow>
          (\<forall>ps. map unplaced ps = map unplaced ns \<longrightarrow> layout d W H ps = Inr ns1))"
proof (cases "\<forall>n \<in> set ns. layerNum n \<noteq> None")
  case True
  from computeLayers_layered[OF assms True] have l: "layered ns" .
  from layout_rows_all[OF l, of d W H] obtain ns1 where 1: "layout d W H ns = Inr ns1" by blast
  have "layout d W H ns1 = Inr ns1" using l 1 by (rule layout_idempotent)
  moreover have "layout d W H ps = Inr ns1" if "map unplaced ps = map unplaced ns" for ps
    using layout_positions_irrelevant[OF l that[symmetric], of d W H] 1 by simp
  ultimately show ?thesis using 1 by blast
next
  case False
  then have "layout d W H ns = Inr ns" by (intro layout_not_numeric) auto
  with False show ?thesis by blast
qed

theorem layout_deterministic_witness:
  "well_formed diamond
   \<and> computeLayers 4 diamond =
       Inr [(mk_node ''r'' [])\<lparr>layer := Some (Lnum 0)\<rparr>, (mk_node ''s'' [])\<lparr>layer := Some (Lnum 0)\<rparr>,
            (mk_node ''u'' [''s''])\<lparr>layer := Some (Lnum 1)\<rparr>, (mk_node ''v'' [''r''])\<lparr>layer := Some (Lnum 1)\<rparr>]
   \<and> list_all (\<lambda>n. layerNum n \<noteq> None)
       [(mk_node ''r'' [])\<lparr>layer := Some (Lnum 0)\<rparr>, (mk_node ''s'' [])\<lparr>layer := Some (Lnum 0)\<rparr>,
        (mk_node ''u'' [''s''])\<lparr>layer := Some (Lnum 1)\<rparr>, (mk_node ''v'' [''r''])\<lparr>layer := Some (Lnum 1)\<rparr>]
   \<and> (\<exists>ns1. layout default_sizes 1000 600
          [(mk_node ''r'' [])\<lparr>layer := Some (Lnum 0)\<rparr>, (mk_node ''s'' [])\<lparr>layer := Some (Lnum 0)\<rparr>,
           (mk_node ''u'' [''s''])\<lparr>layer := Some (Lnum 1)\<rparr>, (mk_node ''v'' [''r''])\<lparr>layer := Some (Lnum 1)\<rparr>]
          = Inr ns1
        \<and> layout default_sizes 1000 600 ns1 = Inr ns1
        \<and> layout default_sizes 1000 600
          [(mk_node ''r'' [])\<lparr>layer := Some (Lnum 0), nx := Some (Num 9)\<rparr>,
           (mk_node ''s'' [])\<lparr>layer := Some (Lnum 0), nx := Some (Num 1)\<rparr>,
           (mk_node ''u'' [''s''])\<lparr>layer := Some (Lnum 1)\<rparr>,
           (mk_node ''v'' [''r''])\<lparr>layer := Some (Lnum 1), ny := Some NaN\<rparr>]
          = Inr ns1)"
proof -
  let ?ns = "[(mk_node ''r'' [])\<lparr>layer := Some (Lnum 0)\<rparr>, (mk_node ''s'' [])\<lparr>layer := Some (Lnum 0)\<rparr>,
     (mk_node ''u'' [''s''])\<lparr>layer := Some (Lnum 1)\<rparr>, (mk_node ''v'' [''r''])\<lparr>layer := Some (Lnum 1)\<rparr>]"
  let ?ps = "[(mk_node ''r'' [])\<lparr>layer := Some (Lnum 0), nx := Some (Num 9)\<rparr>,
     (mk_node ''s'' [])\<lparr>layer := Some (Lnum 0), nx := Some (Num 1)\<rparr>,
     (mk_node ''u'' [''s''])\<lparr>layer := Some (Lnum 1)\<rparr>,
     (mk_node ''v'' [''r''])\<lparr>layer := Some (Lnum 1), ny := Some NaN\<rparr>]"
  have n: "\<forall>n \<in> set ?ns. layerNum n \<noteq> None" by (simp add: layerNum_def)
  have u: "map unplaced ?ps = map unplaced ?ns" by (simp add: unplaced_def mk_node_def)
  from layout_deterministic[OF diamond_well_formed diamond_layers, of default_sizes 1000 600] n u
  have "\<exists>ns1. layout default_sizes 1000 600 ?ns = Inr ns1
      \<and> layout default_sizes 1000 600 ns1 = Inr ns1
      \<and> layout default_sizes 1000 600 ?ps = Inr ns1"
    by blast
  with diamond_well_formed diamond_layers n show ?thesis by (simp add: list_all_iff)
qed







theorem layout_second_pass_differs_counterexample:
  "computeLayers 5 shadowed = Inr (map unplaced shadowed_pass1)
   \<and> layout default_sizes 1000 600 (map unplaced shadowed_pass1) = Inr shadowed_pass1
   \<and> layout default_sizes 1000 600 shadowed_pass1 = Inr shadowed_pass2
   \<and> map nx shadowed_pass1 \<noteq> map nx shadowed_pass2"
  using shadowed_layers shadowed_first shadowed_second
  by (simp add: shadowed_pass1_def shadowed_pass2_def placed_def mk_node_def)

end
